theory Spec2Isabelle
  imports Complex_Main "HOL-Library.Word" "HOL-Library.AList" "HOL-Library.Multiset"
    "HOL-Library.Code_Target_Numeral"
begin

unbundle bit_operations_syntax

section \<open>Data model of \<^verbatim>\<open>draw.ts\<close>\<close>

text \<open>
  A JavaScript string is a sequence of 16-bit code units; \<^verbatim>\<open>charCodeAt\<close> reads one
  as a number in \<open>0..65535\<close>.  Addresses and tier names are only compared and copied,
  so they are plain strings.

  JavaScript numbers are IEEE doubles.  The ticket counts, their sums and the stored
  generator state are integer valued; the model keeps them as \<open>int\<close>.  For the ticket
  counts and their sums that is what the doubles hold as long as every value stays
  below \<open>2^53\<close> in magnitude (all additions are then exact); \<^verbatim>\<open>NaN\<close> and infinite ticket
  counts are outside the model.  The product \<^verbatim>\<open>random() * totalTickets\<close> and the addition
  to the stored generator state are modelled with their rounding (\<open>roundDouble\<close> below).
\<close>

type_synonym js_string = "16 word list"

definition js :: "string \<Rightarrow> js_string" where
  "js s = map (\<lambda>c. of_nat (of_char c)) s"

definition charCode :: "16 word \<Rightarrow> int" where
  "charCode c = uint c"

record PlayerEntry =
  address :: string
  initSpent :: real
  tickets :: int

record PrizeTier =
  name :: string
  winners :: nat
  initPerWinner :: int

text \<open>
  The fields \<^verbatim>\<open>address\<close> and \<^verbatim>\<open>tickets\<close> of \<^verbatim>\<open>DrawResult\<close> are \<open>row_address\<close> and
  \<open>row_tickets\<close> here, the field names of \<open>PlayerEntry\<close> being taken.
\<close>

record DrawResult =
  row_address :: string
  init_spent :: real
  row_tickets :: int
  prize_tier :: string
  init_won :: int

definition PRIZE_TIERS :: "PrizeTier list" where
  "PRIZE_TIERS =
     [\<lparr>name = ''Grand Prize'', winners = 5, initPerWinner = 2500\<rparr>,
      \<lparr>name = ''Major Prize'', winners = 20, initPerWinner = 1125\<rparr>,
      \<lparr>name = ''Minor Prize'', winners = 50, initPerWinner = 300\<rparr>]"

section \<open>Rounding to a double\<close>

text \<open>
  A double has 53 significant bits.  \<open>roundDouble\<close> is the double nearest to an integer,
  ties to even: the magnitude \<open>m\<close> is cut to its leading 53 bits \<open>q\<close>, the
  \<open>e = exponent53 m\<close> low bits \<open>r\<close> being dropped, and \<open>q\<close> is incremented when \<open>r\<close> is
  above the half, or on the half with \<open>q\<close> odd.  An integer below \<open>2^53\<close> in magnitude is
  its own double.
\<close>

fun exponent53 :: "nat \<Rightarrow> nat" where
  "exponent53 m = (if m < 2 ^ 53 then 0 else Suc (exponent53 (m div 2)))"

declare exponent53.simps [simp del]

definition roundMagnitude :: "nat \<Rightarrow> nat" where
  "roundMagnitude m =
     (let e = exponent53 m;
          q = m div 2 ^ e;
          r = m mod 2 ^ e;
          q' = (if 2 * r < 2 ^ e then q
                else if 2 ^ e < 2 * r then q + 1
                else if even q then q else q + 1)
      in q' * 2 ^ e)"

definition roundDouble :: "int \<Rightarrow> int" where
  "roundDouble n = sgn n * int (roundMagnitude (nat \<bar>n\<bar>))"

section \<open>The seeded generator (\<^verbatim>\<open>createSeededRandom\<close>)\<close>

text \<open>
  \<^verbatim>\<open>x | 0\<close> is ToInt32: the number is reduced modulo \<open>2^32\<close> and read as two's
  complement.  \<^verbatim>\<open>x << 5\<close> does the same to \<open>x\<close> and shifts the 32-bit pattern.
\<close>

definition toInt32 :: "int \<Rightarrow> int" where
  "toInt32 x = sint (word_of_int x :: 32 word)"

definition shiftLeft :: "int \<Rightarrow> nat \<Rightarrow> int" where
  "shiftLeft x n = sint (push_bit n (word_of_int x :: 32 word))"

text \<open>The \<^verbatim>\<open>for\<close> loop over the seed's characters, \<open>hashValue\<close> being the accumulator.\<close>

fun hashLoop :: "int \<Rightarrow> js_string \<Rightarrow> int" where
  "hashLoop hashValue [] = hashValue"
| "hashLoop hashValue (c # cs) =
     hashLoop (toInt32 (shiftLeft hashValue 5 - hashValue + charCode c)) cs"

text \<open>
  \<open>createSeededRandom seed\<close> is the value of the captured variable \<^verbatim>\<open>hashValue\<close> when
  the closure is returned; \<open>random\<close> is the body of the closure: it takes the
  captured variable and returns the numerator \<open>u\<close> of the result \<open>u / 4294967296\<close>
  together with the new value of the captured variable.

  \<^verbatim>\<open>hashValue += 0x6D2B79F5\<close> is an addition of numbers, with no \<^verbatim>\<open>| 0\<close>: the stored
  value is not reduced modulo \<open>2^32\<close>, it is the double nearest to the sum, which is the
  sum itself below \<open>2^53\<close>.  The bitwise operators and \<^verbatim>\<open>Math.imul\<close> reduce their
  operands to 32 bits, so \<open>t\<close> is a 32-bit word from its first use on; \<^verbatim>\<open>>>>\<close> is the
  logical shift and binds tighter than \<^verbatim>\<open>^\<close>.
\<close>

definition createSeededRandom :: "js_string \<Rightarrow> int" where
  "createSeededRandom seed = hashLoop 0 seed"

definition imul :: "32 word \<Rightarrow> 32 word \<Rightarrow> 32 word" where
  "imul a b = a * b"

definition random :: "int \<Rightarrow> 32 word \<times> int" where
  "random hashValue =
     (let hashValue' = roundDouble (hashValue + 0x6D2B79F5);
          t = (word_of_int hashValue' :: 32 word);
          t = imul (t XOR drop_bit 15 t) (t OR 1);
          t = t XOR (t + imul (t XOR drop_bit 7 t) (t OR 61))
      in (t XOR drop_bit 14 t, hashValue'))"

text \<open>
  The same two components as the specification words them (sections 4.1 and 4.2):
  the hash as the fold \<open>acc * 31 + charCode\<close> wrapped to signed 32 bits, with the
  wrap written out in arithmetic, and the generator with its state kept modulo \<open>2^32\<close>.
\<close>

definition wrap32 :: "int \<Rightarrow> int" where
  "wrap32 x = (x + 2 ^ 31) mod 2 ^ 32 - 2 ^ 31"

definition specSeedDerivation :: "js_string \<Rightarrow> int" where
  "specSeedDerivation seed = foldl (\<lambda>acc c. wrap32 (acc * 31 + charCode c)) 0 seed"

definition specShiftSeedDerivation :: "js_string \<Rightarrow> int" where
  "specShiftSeedDerivation seed =
     foldl (\<lambda>acc c. wrap32 (acc * 2 ^ 5 - acc + charCode c)) 0 seed"

definition specNext :: "32 word \<Rightarrow> 32 word \<times> 32 word" where
  "specNext state =
     (let state' = state + 0x6D2B79F5;
          t = state';
          t = (t XOR drop_bit 15 t) * (t OR 1);
          t = t XOR (t + (t XOR drop_bit 7 t) * (t OR 61))
      in (t XOR drop_bit 14 t, state'))"

text \<open>
  The captured variable after \<open>n\<close> calls of the closure, and the numerators the first
  \<open>n\<close> calls return; \<open>specOutputs\<close> is the same sequence for the specification's
  generator.
\<close>

fun stateAfter :: "nat \<Rightarrow> int \<Rightarrow> int" where
  "stateAfter 0 hashValue = hashValue"
| "stateAfter (Suc n) hashValue = stateAfter n (snd (random hashValue))"

fun outputs :: "nat \<Rightarrow> int \<Rightarrow> 32 word list" where
  "outputs 0 hashValue = []"
| "outputs (Suc n) hashValue = fst (random hashValue) # outputs n (snd (random hashValue))"

fun specOutputs :: "nat \<Rightarrow> 32 word \<Rightarrow> 32 word list" where
  "specOutputs 0 state = []"
| "specOutputs (Suc n) state = fst (specNext state) # specOutputs n (snd (specNext state))"

section \<open>Weighted selection without replacement (\<^verbatim>\<open>weightedRandomDraw\<close>)\<close>

text \<open>
  \<^verbatim>\<open>Math.floor(random() * totalTickets)\<close>.  The value of \<^verbatim>\<open>random()\<close> is \<open>u / 2^32\<close> for a
  32-bit \<open>u\<close>, which a double holds exactly.  The product is the double nearest to
  \<open>u * totalTickets / 2^32\<close> (ties to even); scaling by \<open>2^32\<close> is exact, so the product
  is \<open>roundDouble (u * totalTickets) / 2^32\<close>.  \<^verbatim>\<open>Math.floor\<close> is the floor division of that
  numerator by \<open>2^32\<close>.
\<close>

definition randomTicketOf :: "32 word \<Rightarrow> int \<Rightarrow> int" where
  "randomTicketOf u totalTickets = roundDouble (uint u * totalTickets) div 2 ^ 32"

text \<open>\<^verbatim>\<open>remaining.reduce((sum, p) => sum + p.tickets, 0)\<close>\<close>

definition sumTickets :: "PlayerEntry list \<Rightarrow> int" where
  "sumTickets remaining = foldl (\<lambda>sum p. sum + tickets p) 0 remaining"

text \<open>
  The inner \<^verbatim>\<open>for\<close> loop over \<open>j\<close>: the list is \<open>remaining\<close> from index \<open>j\<close> on,
  \<open>None\<close> stands for \<^verbatim>\<open>winnerIndex = -1\<close> at the end of the scan.
\<close>

fun findWinner :: "int \<Rightarrow> PlayerEntry list \<Rightarrow> int \<Rightarrow> nat \<Rightarrow> nat option" where
  "findWinner randomTicket [] cumulative j = None"
| "findWinner randomTicket (p # ps) cumulative j =
     (let cumulative' = cumulative + tickets p
      in if randomTicket < cumulative' then Some j
         else findWinner randomTicket ps cumulative' (Suc j))"

text \<open>\<^verbatim>\<open>remaining.splice(winnerIndex, 1)\<close>\<close>

definition splice :: "nat \<Rightarrow> 'a list \<Rightarrow> 'a list" where
  "splice i xs = take i xs @ drop (Suc i) xs"

text \<open>
  The outer \<^verbatim>\<open>for\<close> loop; the first argument is \<open>count - i\<close>, the number of iterations
  left.  An iteration whose scan finds nobody still counts and still consumes a
  value of the generator.  The generator's captured variable is threaded through.
\<close>

fun drawLoop ::
  "nat \<Rightarrow> PlayerEntry list \<Rightarrow> PlayerEntry list \<Rightarrow> int \<Rightarrow> PlayerEntry list \<times> int" where
  "drawLoop 0 remaining winnersAcc st = (winnersAcc, st)"
| "drawLoop (Suc n) remaining winnersAcc st =
     (if remaining = [] then (winnersAcc, st)
      else
        let totalTickets = sumTickets remaining in
        if totalTickets = 0 then (winnersAcc, st)
        else
          let (u, st') = random st;
              randomTicket = randomTicketOf u totalTickets
          in case findWinner randomTicket remaining 0 0 of
               None \<Rightarrow> drawLoop n remaining winnersAcc st'
             | Some winnerIndex \<Rightarrow>
                 drawLoop n (splice winnerIndex remaining)
                   (winnersAcc @ [remaining ! winnerIndex]) st')"

definition weightedRandomDraw ::
  "PlayerEntry list \<Rightarrow> nat \<Rightarrow> int \<Rightarrow> PlayerEntry list \<times> int" where
  "weightedRandomDraw players cnt st = drawLoop cnt players [] st"

section \<open>The tiered draw (\<^verbatim>\<open>conductDraw\<close>)\<close>

text \<open>
  The result is a JavaScript \<^verbatim>\<open>Map\<close>, which keeps its keys in insertion order:
  \<^verbatim>\<open>set\<close> replaces the value of a key that is present and appends a new key
  otherwise, which is \<open>AList.update\<close> on an association list.
\<close>

record Award =
  tier :: string
  amount :: int

type_synonym results = "(string \<times> Award) list"

text \<open>The \<^verbatim>\<open>for (const winner of winners)\<close> loop of one tier.\<close>

fun recordWinners ::
  "PrizeTier \<Rightarrow> PlayerEntry list \<Rightarrow> results \<times> PlayerEntry list
   \<Rightarrow> results \<times> PlayerEntry list" where
  "recordWinners pt [] (res, eligiblePlayers) = (res, eligiblePlayers)"
| "recordWinners pt (winner # rest) (res, eligiblePlayers) =
     recordWinners pt rest
       (AList.update (address winner) \<lparr>tier = name pt, amount = initPerWinner pt\<rparr> res,
        filter (\<lambda>p. address p \<noteq> address winner) eligiblePlayers)"

text \<open>
  The \<^verbatim>\<open>for (const tier of PRIZE_TIERS)\<close> loop, for any list of tiers.  Beside the
  map it returns the value of \<^verbatim>\<open>winners\<close> in each iteration (what the loop logs as
  \<^verbatim>\<open>Selected n winners\<close>).
\<close>

fun drawTiers ::
  "PrizeTier list \<Rightarrow> PlayerEntry list \<Rightarrow> int \<Rightarrow> results
   \<Rightarrow> results \<times> PlayerEntry list list" where
  "drawTiers [] eligiblePlayers st res = (res, [])"
| "drawTiers (pt # pts) eligiblePlayers st res =
     (let (ws, st') = weightedRandomDraw eligiblePlayers (winners pt) st;
          (res', eligiblePlayers') = recordWinners pt ws (res, eligiblePlayers);
          (res'', selected) = drawTiers pts eligiblePlayers' st' res'
      in (res'', ws # selected))"

definition conductTiers ::
  "PrizeTier list \<Rightarrow> PlayerEntry list \<Rightarrow> js_string \<Rightarrow> results \<times> PlayerEntry list list" where
  "conductTiers tiers players nistRandomness =
     drawTiers tiers (filter (\<lambda>p. tickets p > 0) players)
       (createSeededRandom nistRandomness) []"

definition conductDraw :: "PlayerEntry list \<Rightarrow> js_string \<Rightarrow> results" where
  "conductDraw players nistRandomness = fst (conductTiers PRIZE_TIERS players nistRandomness)"

definition tierWinners :: "PrizeTier list \<Rightarrow> PlayerEntry list \<Rightarrow> js_string \<Rightarrow> PlayerEntry list list" where
  "tierWinners tiers players nistRandomness = snd (conductTiers tiers players nistRandomness)"

section \<open>The output rows (\<^verbatim>\<open>generateOutput\<close>)\<close>

text \<open>
  The \<^verbatim>\<open>map\<close> callback: \<^verbatim>\<open>results.get\<close> is the lookup in the association list,
  \<^verbatim>\<open>result?.tier ?? ''\<close> and \<^verbatim>\<open>result?.amount ?? 0\<close> are the defaults of a participant
  without an entry.
\<close>

definition resultRow :: "results \<Rightarrow> PlayerEntry \<Rightarrow> DrawResult" where
  "resultRow res player =
     (let result = map_of res (address player)
      in \<lparr>row_address = address player,
          init_spent = initSpent player,
          row_tickets = tickets player,
          prize_tier = (case result of None \<Rightarrow> [] | Some r \<Rightarrow> tier r),
          init_won = (case result of None \<Rightarrow> 0 | Some r \<Rightarrow> amount r)\<rparr>)"

text \<open>The comparison function handed to \<^verbatim>\<open>sort\<close>.\<close>

definition compareRows :: "DrawResult \<Rightarrow> DrawResult \<Rightarrow> int" where
  "compareRows a b =
     (if init_won a \<noteq> init_won b then init_won b - init_won a
      else row_tickets b - row_tickets a)"

text \<open>
  \<^verbatim>\<open>Array.prototype.sort\<close> with a comparison function is a stable sort (ECMAScript
  2019): \<open>a\<close> comes before \<open>b\<close> when the function is negative, and elements that
  compare equal keep their order.  For a consistent comparison function that fixes the
  result, whatever algorithm the engine runs; the model is the stable insertion sort.
\<close>

fun insertByCompare :: "('a \<Rightarrow> 'a \<Rightarrow> int) \<Rightarrow> 'a \<Rightarrow> 'a list \<Rightarrow> 'a list" where
  "insertByCompare cmp x [] = [x]"
| "insertByCompare cmp x (y # ys) =
     (if cmp x y \<le> 0 then x # y # ys else y # insertByCompare cmp x ys)"

definition sortByCompare :: "('a \<Rightarrow> 'a \<Rightarrow> int) \<Rightarrow> 'a list \<Rightarrow> 'a list" where
  "sortByCompare cmp xs = foldr (insertByCompare cmp) xs []"

text \<open>The array \<^verbatim>\<open>output\<close> after the sort, which is what is written as CSV.\<close>

definition generateOutput :: "PlayerEntry list \<Rightarrow> results \<Rightarrow> DrawResult list" where
  "generateOutput players res = sortByCompare compareRows (map (resultRow res) players)"

text \<open>
  The order the comparison function stands for: a higher amount first, and among equal
  amounts the higher ticket count first.
\<close>

definition rowsOrdered :: "DrawResult \<Rightarrow> DrawResult \<Rightarrow> bool" where
  "rowsOrdered a b \<longleftrightarrow>
     init_won b < init_won a \<or> (init_won a = init_won b \<and> row_tickets b \<le> row_tickets a)"

section \<open>The draw on a store of arrays\<close>

text \<open>
  The functions above take and return lists as values, which hides what the JavaScript
  does to the caller's array.  Here the arrays live in a store: an array is a reference
  to a list of references to participant records, \<^verbatim>\<open>[...players]\<close> and \<^verbatim>\<open>filter\<close> allocate
  a new array, \<^verbatim>\<open>push\<close> and \<^verbatim>\<open>splice\<close> update an array in place.  The code never assigns
  to a field of a record, so the store has no operation that writes one.  Arrays and
  records are referred to by numbers of their own; \<open>nextRef\<close> is the next unused array
  reference, and every array in use has a smaller one.
\<close>

record heap =
  objects :: "nat \<Rightarrow> PlayerEntry"
  arrays :: "nat \<Rightarrow> nat list"
  nextRef :: nat

definition newArray :: "nat list \<Rightarrow> heap \<Rightarrow> nat \<times> heap" where
  "newArray elems h =
     (nextRef h, h\<lparr>arrays := (arrays h)(nextRef h := elems), nextRef := Suc (nextRef h)\<rparr>)"

definition push :: "nat \<Rightarrow> nat \<Rightarrow> heap \<Rightarrow> heap" where
  "push arr x h = h\<lparr>arrays := (arrays h)(arr := arrays h arr @ [x])\<rparr>"

definition spliceAt :: "nat \<Rightarrow> nat \<Rightarrow> heap \<Rightarrow> heap" where
  "spliceAt arr i h = h\<lparr>arrays := (arrays h)(arr := splice i (arrays h arr))\<rparr>"

text \<open>The records an array refers to, in order.\<close>

definition deref :: "heap \<Rightarrow> nat \<Rightarrow> PlayerEntry list" where
  "deref h arr = map (objects h) (arrays h arr)"

fun drawLoopH :: "nat \<Rightarrow> nat \<Rightarrow> nat \<Rightarrow> int \<Rightarrow> heap \<Rightarrow> int \<times> heap" where
  "drawLoopH 0 remaining winnersArr st h = (st, h)"
| "drawLoopH (Suc n) remaining winnersArr st h =
     (if arrays h remaining = [] then (st, h)
      else
        let totalTickets = sumTickets (deref h remaining) in
        if totalTickets = 0 then (st, h)
        else
          let (u, st') = random st;
              randomTicket = randomTicketOf u totalTickets
          in case findWinner randomTicket (deref h remaining) 0 0 of
               None \<Rightarrow> drawLoopH n remaining winnersArr st' h
             | Some winnerIndex \<Rightarrow>
                 drawLoopH n remaining winnersArr st'
                   (spliceAt remaining winnerIndex
                      (push winnersArr (arrays h remaining ! winnerIndex) h)))"

definition weightedRandomDrawH :: "nat \<Rightarrow> nat \<Rightarrow> int \<Rightarrow> heap \<Rightarrow> nat \<times> int \<times> heap" where
  "weightedRandomDrawH players cnt st h =
     (let (winnersArr, h1) = newArray [] h;
          (remaining, h2) = newArray (arrays h1 players) h1;
          (st', h3) = drawLoopH cnt remaining winnersArr st h2
      in (winnersArr, st', h3))"

fun recordWinnersH ::
  "PrizeTier \<Rightarrow> nat list \<Rightarrow> results \<times> nat \<times> heap \<Rightarrow> results \<times> nat \<times> heap" where
  "recordWinnersH pt [] (res, eligiblePlayers, h) = (res, eligiblePlayers, h)"
| "recordWinnersH pt (winner # rest) (res, eligiblePlayers, h) =
     (let (eligiblePlayers', h') =
            newArray (filter (\<lambda>p. address (objects h p) \<noteq> address (objects h winner))
                        (arrays h eligiblePlayers)) h
      in recordWinnersH pt rest
           (AList.update (address (objects h winner))
              \<lparr>tier = name pt, amount = initPerWinner pt\<rparr> res,
            eligiblePlayers', h'))"

fun drawTiersH ::
  "PrizeTier list \<Rightarrow> nat \<Rightarrow> int \<Rightarrow> results \<Rightarrow> heap \<Rightarrow> results \<times> heap" where
  "drawTiersH [] eligiblePlayers st res h = (res, h)"
| "drawTiersH (pt # pts) eligiblePlayers st res h =
     (let (winnersArr, st', h1) = weightedRandomDrawH eligiblePlayers (winners pt) st h;
          (res', eligiblePlayers', h2) =
            recordWinnersH pt (arrays h1 winnersArr) (res, eligiblePlayers, h1)
      in drawTiersH pts eligiblePlayers' st' res' h2)"

definition conductDrawH :: "nat \<Rightarrow> js_string \<Rightarrow> heap \<Rightarrow> results \<times> heap" where
  "conductDrawH players nistRandomness h =
     (let st = createSeededRandom nistRandomness;
          (eligiblePlayers, h1) =
            newArray (filter (\<lambda>p. tickets (objects h p) > 0) (arrays h players)) h
      in drawTiersH PRIZE_TIERS eligiblePlayers st [] h1)"

text \<open>
  What a caller can observe of a store \<open>h\<close> in a later store \<open>h'\<close>: the records, and
  the arrays that existed in \<open>h\<close>.
\<close>

definition unchanged :: "heap \<Rightarrow> heap \<Rightarrow> bool" where
  "unchanged h h' \<longleftrightarrow>
     objects h' = objects h \<and> nextRef h \<le> nextRef h'
     \<and> (\<forall>r < nextRef h. arrays h' r = arrays h r)"

section \<open>A worked example\<close>

text \<open>
  The population of the specification's worked example with a fourth participant, the
  seed \<^verbatim>\<open>"test"\<close>, and a list of two tiers whose second tier cannot be filled.
\<close>

definition playerA :: PlayerEntry where
  "playerA = \<lparr>address = ''A'', initSpent = 30000, tickets = 300\<rparr>"

definition playerB :: PlayerEntry where
  "playerB = \<lparr>address = ''B'', initSpent = 10000, tickets = 100\<rparr>"

definition playerC :: PlayerEntry where
  "playerC = \<lparr>address = ''C'', initSpent = 50, tickets = 0\<rparr>"

definition playerD :: PlayerEntry where
  "playerD = \<lparr>address = ''D'', initSpent = 5000, tickets = 50\<rparr>"

definition examplePlayers :: "PlayerEntry list" where
  "examplePlayers = [playerA, playerB, playerC, playerD]"

definition exampleHeap :: heap where
  "exampleHeap =
     \<lparr>objects = (\<lambda>r. if r = 0 then playerA else if r = 1 then playerB
                      else if r = 2 then playerC else playerD),
      arrays = (\<lambda>r. if r = 0 then [0, 1, 2, 3] else []),
      nextRef = 1\<rparr>"

definition exampleTiers :: "PrizeTier list" where
  "exampleTiers =
     [\<lparr>name = ''Gold'', winners = 1, initPerWinner = 10\<rparr>,
      \<lparr>name = ''Silver'', winners = 5, initPerWinner = 5\<rparr>]"

text \<open>
  Three records outside the specification's data model, which takes weights to be
  non-negative and identifiers to be unique: a weight of 0 beside a negative weight, and
  a second record with the address of \<open>playerA\<close>.
\<close>

definition playerZ :: PlayerEntry where
  "playerZ = \<lparr>address = ''Z'', initSpent = 0, tickets = 0\<rparr>"

definition playerN :: PlayerEntry where
  "playerN = \<lparr>address = ''N'', initSpent = - 500, tickets = - 5\<rparr>"

definition playerA2 :: PlayerEntry where
  "playerA2 = \<lparr>address = ''A'', initSpent = 5000, tickets = 50\<rparr>"

section \<open>Properties of the generator\<close>

lemma toInt32_wrap32: "toInt32 x = wrap32 x"
  by (simp add: toInt32_def wrap32_def sint_sbintrunc'
      signed_take_bit_eq_take_bit_shift take_bit_eq_mod)

lemma toInt32_range: "- (2 ^ 31) \<le> toInt32 x \<and> toInt32 x < 2 ^ 31"
  using sint_ge [of "word_of_int x :: 32 word"] sint_lt [of "word_of_int x :: 32 word"]
  by (simp add: toInt32_def)

lemma hash_step_word:
  "(word_of_int (shiftLeft h 5 - h + c) :: 32 word) = word_of_int (h * 31 + c)"
  by (simp add: shiftLeft_def push_bit_eq_mult)

lemma hash_step: "toInt32 (shiftLeft h 5 - h + c) = wrap32 (h * 31 + c)"
proof -
  have "toInt32 (shiftLeft h 5 - h + c) = toInt32 (h * 31 + c)"
    unfolding toInt32_def hash_step_word ..
  then show ?thesis
    by (simp add: toInt32_wrap32)
qed

lemma hash_step_shift: "wrap32 (h * 2 ^ 5 - h + c) = wrap32 (h * 31 + c)"
proof -
  have "h * 2 ^ 5 - h + c = h * 31 + c"
    by simp
  then show ?thesis
    by (simp only:)
qed

lemma hashLoop_foldl:
  "hashLoop h cs = foldl (\<lambda>acc c. wrap32 (acc * 31 + charCode c)) h cs"
  by (induction cs arbitrary: h) (simp_all add: hash_step)

lemma hashLoop_range:
  "- (2 ^ 31) \<le> h \<and> h < 2 ^ 31 \<Longrightarrow> - (2 ^ 31) \<le> hashLoop h cs \<and> hashLoop h cs < 2 ^ 31"
proof (induction cs arbitrary: h)
  case Nil
  then show ?case by simp
next
  case (Cons c cs)
  show ?case
    using Cons.IH [OF toInt32_range] by simp
qed

text \<open>
  Claim C7.  For every seed string the derived seed is a signed 32-bit integer, it is
  the fold of \<open>acc = ((acc << 5) - acc + charCode)\<close> wrapped to 32 bits from accumulator
  0, and it equals the fold of \<open>acc = acc * 31 + charCode\<close> wrapped to 32 bits.
\<close>

theorem C7_seed_derivation:
  "createSeededRandom seed = specShiftSeedDerivation seed
   \<and> createSeededRandom seed = specSeedDerivation seed
   \<and> - (2 ^ 31) \<le> createSeededRandom seed \<and> createSeededRandom seed < 2 ^ 31"
proof -
  have "createSeededRandom seed = specSeedDerivation seed"
    by (simp add: createSeededRandom_def specSeedDerivation_def hashLoop_foldl)
  moreover have "specShiftSeedDerivation seed = specSeedDerivation seed"
    unfolding specShiftSeedDerivation_def specSeedDerivation_def hash_step_shift ..
  moreover have "- (2 ^ 31) \<le> createSeededRandom seed \<and> createSeededRandom seed < 2 ^ 31"
    unfolding createSeededRandom_def by (rule hashLoop_range) simp
  ultimately show ?thesis
    by simp
qed

section \<open>Properties of the ticket\<close>

lemma exponent53_upper: "m < 2 ^ 53 * 2 ^ exponent53 m"
proof (induction m rule: exponent53.induct)
  case (1 m)
  show ?case
  proof (cases "m < 2 ^ 53")
    case True
    then show ?thesis
      by (subst exponent53.simps) simp
  next
    case False
    from 1 [OF False] have "m div 2 < 2 ^ 53 * 2 ^ exponent53 (m div 2)" .
    then have "m < 2 * (2 ^ 53 * 2 ^ exponent53 (m div 2))"
      by linarith
    with False show ?thesis
      by (subst exponent53.simps) simp
  qed
qed

lemma exponent53_lower: "0 < exponent53 m \<Longrightarrow> 2 ^ 52 * 2 ^ exponent53 m \<le> m"
proof (induction m rule: exponent53.induct)
  case (1 m)
  show ?case
  proof (cases "m < 2 ^ 53")
    case True
    with "1.prems" show ?thesis
      by (subst (asm) exponent53.simps) simp
  next
    case False
    have e: "exponent53 m = Suc (exponent53 (m div 2))"
      using False by (subst exponent53.simps) simp
    show ?thesis
    proof (cases "0 < exponent53 (m div 2)")
      case True
      from "1.IH" [OF False True] have "2 * (2 ^ 52 * 2 ^ exponent53 (m div 2)) \<le> m"
        by linarith
      then show ?thesis
        by (simp add: e)
    next
      case False
      with \<open>\<not> m < 2 ^ 53\<close> show ?thesis
        by (simp add: e)
    qed
  qed
qed

lemma exponent53_small: "m < 2 ^ 53 \<Longrightarrow> exponent53 m = 0"
  by (subst exponent53.simps) simp

lemma roundMagnitude_small: "m < 2 ^ 53 \<Longrightarrow> roundMagnitude m = m"
  by (simp add: roundMagnitude_def exponent53_small)

lemma roundMagnitude_upper:
  fixes m T :: nat
  assumes "m + T \<le> 2 ^ 32 * T" and "0 < T"
  shows "roundMagnitude m < 2 ^ 32 * T"
proof (cases "0 < exponent53 m")
  case False
  then have "m < 2 ^ 53"
    using exponent53_upper [of m] by simp
  with assms show ?thesis
    by (simp add: roundMagnitude_small)
next
  case True
  define X where "X = (2::nat) ^ exponent53 m"
  define q where "q = m div X"
  define r where "r = m mod X"
  define k where "k = (if 2 * r < X then q else if X < 2 * r then q + 1
                       else if even q then q else q + 1)"
  have rm: "roundMagnitude m = k * X"
    by (simp add: roundMagnitude_def Let_def k_def q_def r_def X_def)
  have m: "m = q * X + r"
    by (simp add: q_def r_def)
  from exponent53_lower [OF True] have "2 ^ 52 * X \<le> m"
    by (simp add: X_def)
  with assms(1,2) have XT: "X < T"
    by simp
  have up: "2 * ((q + 1) * X) \<le> 2 * m + X" if "X \<le> 2 * r"
    using that m by (simp add: algebra_simps)
  have down: "2 * (q * X) \<le> 2 * m + X"
    using m by simp
  have kq: "k = q \<or> (k = q + 1 \<and> X \<le> 2 * r)"
    by (auto simp: k_def)
  have "2 * (k * X) \<le> 2 * m + X"
    using kq
  proof (elim disjE conjE)
    assume "k = q"
    then show ?thesis
      using down by (simp only:)
  next
    assume "k = q + 1" and "X \<le> 2 * r"
    then show ?thesis
      using up by (simp only:)
  qed
  with XT assms(1) have "k * X < 2 ^ 32 * T"
    by simp
  then show ?thesis
    by (simp only: rm)
qed

lemma roundDouble_small: "\<bar>n\<bar> < 2 ^ 53 \<Longrightarrow> roundDouble n = n"
proof -
  assume a: "\<bar>n\<bar> < 2 ^ 53"
  then have "nat \<bar>n\<bar> < 2 ^ 53"
    by (simp add: nat_less_iff)
  then have "roundDouble n = sgn n * int (nat \<bar>n\<bar>)"
    by (simp add: roundDouble_def roundMagnitude_small)
  also have "\<dots> = n"
    by (simp add: mult_sgn_abs)
  finally show ?thesis .
qed

lemma roundDouble_range:
  assumes "0 \<le> n" and "n + T \<le> 2 ^ 32 * T" and "0 < T"
  shows "0 \<le> roundDouble n \<and> roundDouble n < 2 ^ 32 * T"
proof -
  obtain m where n: "n = int m"
    using assms(1) nonneg_int_cases by blast
  obtain T' where T: "T = int T'"
    using assms(3) by (metis less_imp_le nonneg_int_cases)
  have "int (m + T') \<le> int (2 ^ 32 * T')"
    using assms(2) by (simp add: n T)
  then have mT: "m + T' \<le> 2 ^ 32 * T'"
    by (simp only: of_nat_le_iff)
  have T'pos: "0 < T'"
    using assms(3) by (simp add: T)
  from roundMagnitude_upper [OF mT T'pos]
  have "int (roundMagnitude m) < int (2 ^ 32 * T')"
    by (simp only: of_nat_less_iff)
  then have up: "int (roundMagnitude m) < 2 ^ 32 * T"
    by (simp add: T)
  have "sgn n = 0 \<or> sgn n = 1"
    using assms(1) by (auto simp: sgn_if)
  then show ?thesis
    using up assms(3) by (auto simp: roundDouble_def n)
qed

lemma randomTicketOf_range:
  assumes "0 < totalTickets"
  shows "0 \<le> randomTicketOf u totalTickets \<and> randomTicketOf u totalTickets < totalTickets"
proof -
  have u: "0 \<le> uint u" and "uint u < 2 ^ 32"
    using uint_lt2p [of u] by simp_all
  then have "uint u + 1 \<le> 2 ^ 32"
    by simp
  then have "(uint u + 1) * totalTickets \<le> 2 ^ 32 * totalTickets"
    using assms by (intro mult_right_mono) simp_all
  then have le: "uint u * totalTickets + totalTickets \<le> 2 ^ 32 * totalTickets"
    by (simp add: algebra_simps)
  have nn: "0 \<le> uint u * totalTickets"
    using u assms by simp
  from roundDouble_range [OF nn le assms]
  have "0 \<le> roundDouble (uint u * totalTickets)"
    and "roundDouble (uint u * totalTickets) < totalTickets * 2 ^ 32"
    by (simp_all add: mult.commute)
  then show ?thesis
    unfolding randomTicketOf_def
    by (simp add: div_less_iff_less_mult pos_imp_zdiv_nonneg_iff)
qed

lemma randomTicketOf_small:
  "\<bar>uint u * totalTickets\<bar> < 2 ^ 53 \<Longrightarrow>
   randomTicketOf u totalTickets = uint u * totalTickets div 2 ^ 32"
  by (simp add: randomTicketOf_def roundDouble_small)

section \<open>Properties of the selection loop\<close>

lemma foldl_tickets: "foldl (\<lambda>sum p. sum + tickets p) a ps = a + sum_list (map tickets ps)"
  by (induction ps arbitrary: a) simp_all

lemma sumTickets_sum_list: "sumTickets ps = sum_list (map tickets ps)"
  by (simp add: sumTickets_def foldl_tickets)

lemma sumTickets_Nil [simp]: "sumTickets [] = 0"
  by (simp add: sumTickets_def)

lemma sumTickets_Cons [simp]: "sumTickets (p # ps) = tickets p + sumTickets ps"
  by (simp add: sumTickets_sum_list)

lemma sumTickets_nonneg: "\<forall>p\<in>set ps. 0 \<le> tickets p \<Longrightarrow> 0 \<le> sumTickets ps"
  by (induction ps) simp_all


subsection \<open>The scan\<close>

lemma findWinner_bounds:
  "findWinner t ps c j = Some k \<Longrightarrow> j \<le> k \<and> k < j + length ps"
proof (induction ps arbitrary: c j)
  case Nil
  then show ?case by simp
next
  case (Cons p ps)
  show ?case
  proof (cases "t < c + tickets p")
    case True
    with Cons.prems show ?thesis
      by (simp add: Let_def)
  next
    case False
    with Cons.prems have "findWinner t ps (c + tickets p) (Suc j) = Some k"
      by (simp add: Let_def)
    from Cons.IH [OF this] show ?thesis
      by simp
  qed
qed



lemma findWinner_positive:
  "findWinner t ps c j = Some k \<Longrightarrow> c \<le> t \<Longrightarrow> 0 < tickets (ps ! (k - j))"
proof (induction ps arbitrary: c j)
  case Nil
  then show ?case by simp
next
  case (Cons p ps)
  show ?case
  proof (cases "t < c + tickets p")
    case True
    with Cons.prems show ?thesis
      by (simp add: Let_def)
  next
    case False
    with Cons.prems have rec: "findWinner t ps (c + tickets p) (Suc j) = Some k"
      by (simp add: Let_def)
    from findWinner_bounds [OF rec] have "k - j = Suc (k - Suc j)"
      by arith
    moreover from Cons.IH [OF rec] False have "0 < tickets (ps ! (k - Suc j))"
      by simp
    ultimately show ?thesis
      by simp
  qed
qed

subsection \<open>One iteration of the draw loop\<close>


lemma mset_splice: "i < length xs \<Longrightarrow> mset xs = add_mset (xs ! i) (mset (splice i xs))"
proof -
  assume i: "i < length xs"
  then have "xs = take i xs @ xs ! i # drop (Suc i) xs"
    by (simp add: id_take_nth_drop)
  then have "mset xs = mset (take i xs @ xs ! i # drop (Suc i) xs)"
    by simp
  then show ?thesis
    by (simp add: splice_def)
qed

lemma set_splice: "set (splice i xs) \<subseteq> set xs"
  unfolding splice_def by (auto dest: in_set_takeD in_set_dropD)

lemma drawLoop_stop:
  "remaining = [] \<or> sumTickets remaining = 0 \<Longrightarrow>
   drawLoop n remaining ws st = (ws, st)"
  by (cases n) (auto simp: Let_def)

lemma drawLoop_miss:
  assumes "remaining \<noteq> []" and "sumTickets remaining \<noteq> 0"
    and "findWinner (randomTicketOf (fst (random st)) (sumTickets remaining)) remaining 0 0 = None"
  shows "drawLoop (Suc n) remaining ws st = drawLoop n remaining ws (snd (random st))"
  using assms by (simp add: Let_def split_beta)

lemma drawLoop_hit:
  assumes "remaining \<noteq> []" and "sumTickets remaining \<noteq> 0"
    and "findWinner (randomTicketOf (fst (random st)) (sumTickets remaining)) remaining 0 0 = Some j"
  shows "drawLoop (Suc n) remaining ws st =
         drawLoop n (splice j remaining) (ws @ [remaining ! j]) (snd (random st))"
  using assms by (simp add: Let_def split_beta)

text \<open>An induction rule that follows the loop.\<close>

lemma drawLoop_induct [case_names stop miss hit]:
  assumes stop: "\<And>n remaining ws st. n = 0 \<or> remaining = [] \<or> sumTickets remaining = 0 \<Longrightarrow>
            drawLoop n remaining ws st = (ws, st) \<Longrightarrow> P n remaining ws st"
    and miss: "\<And>n remaining ws st. remaining \<noteq> [] \<Longrightarrow> sumTickets remaining \<noteq> 0 \<Longrightarrow>
            findWinner (randomTicketOf (fst (random st)) (sumTickets remaining)) remaining 0 0 = None \<Longrightarrow>
            drawLoop (Suc n) remaining ws st = drawLoop n remaining ws (snd (random st)) \<Longrightarrow>
            P n remaining ws (snd (random st)) \<Longrightarrow> P (Suc n) remaining ws st"
    and hit: "\<And>n remaining ws st j. remaining \<noteq> [] \<Longrightarrow> sumTickets remaining \<noteq> 0 \<Longrightarrow>
            findWinner (randomTicketOf (fst (random st)) (sumTickets remaining)) remaining 0 0 = Some j \<Longrightarrow>
            j < length remaining \<Longrightarrow>
            drawLoop (Suc n) remaining ws st =
              drawLoop n (splice j remaining) (ws @ [remaining ! j]) (snd (random st)) \<Longrightarrow>
            P n (splice j remaining) (ws @ [remaining ! j]) (snd (random st)) \<Longrightarrow>
            P (Suc n) remaining ws st"
  shows "P n remaining ws st"
proof -
  have "\<forall>remaining ws st. P n remaining ws st"
  proof (induction n)
    case 0
    show ?case
      by (simp add: stop)
  next
    case (Suc n)
    show ?case
    proof (intro allI)
      fix remaining ws st
      show "P (Suc n) remaining ws st"
      proof (cases "remaining = [] \<or> sumTickets remaining = 0")
        case True
        have "drawLoop (Suc n) remaining ws st = (ws, st)"
          using True by (rule drawLoop_stop)
        with True show ?thesis
          by (intro stop) simp_all
      next
        case False
        then have ne: "remaining \<noteq> []" and tot: "sumTickets remaining \<noteq> 0"
          by simp_all
        show ?thesis
        proof (cases "findWinner (randomTicketOf (fst (random st)) (sumTickets remaining))
                        remaining 0 0")
          case None
          from Suc.IH have "P n remaining ws (snd (random st))"
            by blast
          with ne tot None drawLoop_miss [OF ne tot None] show ?thesis
            by (rule miss)
        next
          case (Some j)
          from findWinner_bounds [OF Some] have j: "j < length remaining"
            by simp
          from Suc.IH have "P n (splice j remaining) (ws @ [remaining ! j]) (snd (random st))"
            by blast
          with ne tot Some j drawLoop_hit [OF ne tot Some] show ?thesis
            by (rule hit)
        qed
      qed
    qed
  qed
  then show ?thesis
    by blast
qed

lemma drawLoop_mset:
  "\<exists>picked. fst (drawLoop n remaining ws st) = ws @ picked \<and> mset picked \<subseteq># mset remaining"
proof (induction n remaining ws st rule: drawLoop_induct)
  case (stop n remaining ws st)
  then show ?case by simp
next
  case (miss n remaining ws st)
  show ?case
    unfolding miss.hyps(4) by (rule miss.IH)
next
  case (hit n remaining ws st j)
  then obtain picked where
    p: "fst (drawLoop n (splice j remaining) (ws @ [remaining ! j]) (snd (random st)))
        = (ws @ [remaining ! j]) @ picked"
    and sub: "mset picked \<subseteq># mset (splice j remaining)"
    by blast
  have "mset (remaining ! j # picked) \<subseteq># mset remaining"
    using sub by (simp add: mset_splice [OF hit.hyps(4)])
  with p show ?case
    unfolding hit.hyps(5) by (intro exI [of _ "remaining ! j # picked"]) simp
qed

lemma drawLoop_positive:
  "\<forall>p\<in>set remaining. 0 \<le> tickets p \<Longrightarrow> \<forall>w\<in>set ws. 0 < tickets w \<Longrightarrow>
   \<forall>w\<in>set (fst (drawLoop n remaining ws st)). 0 < tickets w"
proof (induction n remaining ws st rule: drawLoop_induct)
  case (stop n remaining ws st)
  then show ?case by simp
next
  case (miss n remaining ws st)
  show ?case
    unfolding miss.hyps(4) using miss.prems by (rule miss.IH)
next
  case (hit n remaining ws st j)
  have tot: "0 < sumTickets remaining"
    using sumTickets_nonneg [OF hit.prems(1)] hit.hyps(2) by simp
  then have "0 \<le> randomTicketOf (fst (random st)) (sumTickets remaining)"
    using randomTicketOf_range by blast
  from findWinner_positive [OF hit.hyps(3) this] have "0 < tickets (remaining ! j)"
    by simp
  with hit.prems(2) have ws: "\<forall>w\<in>set (ws @ [remaining ! j]). 0 < tickets w"
    by simp
  have "\<forall>p\<in>set (splice j remaining). 0 \<le> tickets p"
    using hit.prems(1) set_splice [of j remaining] by blast
  then show ?case
    unfolding hit.hyps(5) using ws by (rule hit.IH)
qed


section \<open>Properties of the tiered draw\<close>

subsection \<open>What one call of the sampler returns\<close>

lemma distinct_submultiset:
  assumes "mset ys \<subseteq># mset xs" and "distinct xs"
  shows "distinct ys"
proof -
  have "count (mset ys) a \<le> 1" for a
  proof -
    have "count (mset ys) a \<le> count (mset xs) a"
      using assms(1) by (rule mset_subset_eq_count)
    also have "\<dots> \<le> 1"
      using assms(2) by (simp add: distinct_count_atmost_1)
    finally show ?thesis .
  qed
  moreover have "count (mset ys) a = 0 \<longleftrightarrow> a \<notin> set ys" for a
    by (simp add: count_eq_zero_iff)
  ultimately have "count (mset ys) a = (if a \<in> set ys then 1 else 0)" for a
    by (metis le_antisym le_zero_eq not_less_eq_eq One_nat_def)
  then show ?thesis
    by (simp add: distinct_count_atmost_1)
qed

lemma weightedRandomDraw_mset:
  "mset (fst (weightedRandomDraw players cnt st)) \<subseteq># mset players"
  using drawLoop_mset [of cnt players "[]" st] by (auto simp: weightedRandomDraw_def)

lemma weightedRandomDraw_subset:
  "set (fst (weightedRandomDraw players cnt st)) \<subseteq> set players"
  using set_mset_mono [OF weightedRandomDraw_mset [of players cnt st]] by simp

lemma weightedRandomDraw_distinct:
  assumes "distinct (map address players)"
  shows "distinct (map address (fst (weightedRandomDraw players cnt st)))"
proof -
  have "mset (map address (fst (weightedRandomDraw players cnt st))) \<subseteq># mset (map address players)"
    using image_mset_subseteq_mono [OF weightedRandomDraw_mset [of players cnt st], of address]
    by simp
  then show ?thesis
    using assms by (rule distinct_submultiset)
qed

lemma weightedRandomDraw_positive:
  "\<forall>p\<in>set players. 0 \<le> tickets p \<Longrightarrow>
   \<forall>w\<in>set (fst (weightedRandomDraw players cnt st)). 0 < tickets w"
  unfolding weightedRandomDraw_def by (rule drawLoop_positive) simp_all


subsection \<open>Recording the winners of a tier\<close>

lemma recordWinners_pool:
  "snd (recordWinners pt ws (res, el)) = filter (\<lambda>p. address p \<notin> address ` set ws) el"
proof (induction ws arbitrary: res el)
  case Nil
  then show ?case by simp
next
  case (Cons w ws)
  have "(\<lambda>p. address p \<notin> address ` set ws \<and> address p \<noteq> address w)
        = (\<lambda>p. address p \<notin> address ` set (w # ws))"
    by auto
  then show ?case
    by (simp add: Cons.IH)
qed

lemma recordWinners_keys:
  "distinct (map address ws) \<Longrightarrow> address ` set ws \<inter> fst ` set res = {} \<Longrightarrow>
   map fst (fst (recordWinners pt ws (res, el))) = map fst res @ map address ws"
proof (induction ws arbitrary: res el)
  case Nil
  then show ?case by simp
next
  case (Cons w ws)
  let ?res = "AList.update (address w) \<lparr>tier = name pt, amount = initPerWinner pt\<rparr> res"
  have w: "address w \<notin> fst ` set res"
    using Cons.prems(2) by auto
  then have keys: "map fst ?res = map fst res @ [address w]"
    by (simp add: update_keys)
  have "address ` set ws \<inter> fst ` set ?res = {}"
  proof -
    have "fst ` set ?res = insert (address w) (fst ` set res)"
      using keys by (metis (no_types) list.set_map set_append list.simps(15) empty_set Un_insert_right sup_bot.right_neutral)
    then show ?thesis
      using Cons.prems by auto
  qed
  with Cons.prems(1) have
    "map fst (fst (recordWinners pt ws (?res, filter (\<lambda>p. address p \<noteq> address w) el)))
     = map fst ?res @ map address ws"
    by (intro Cons.IH) simp_all
  then show ?case
    by (simp add: keys)
qed

lemma recordWinners_entries:
  "set (fst (recordWinners pt ws (res, el)))
   \<subseteq> set res \<union> {(k, a). a = \<lparr>tier = name pt, amount = initPerWinner pt\<rparr>}"
proof (induction ws arbitrary: res el)
  case Nil
  then show ?case by simp
next
  case (Cons w ws)
  let ?a = "\<lparr>tier = name pt, amount = initPerWinner pt\<rparr>"
  have "set (AList.update (address w) ?a res) \<subseteq> insert (address w, ?a) (set res)"
    by (induction res) auto
  with Cons.IH [of "AList.update (address w) ?a res" "filter (\<lambda>p. address p \<noteq> address w) el"]
  show ?case
    by auto
qed


subsection \<open>The loop over the tiers\<close>

lemma drawTiers_Cons:
  "drawTiers (pt # pts) el st res =
     (fst (drawTiers pts
        (filter (\<lambda>p. address p \<notin> address ` set (fst (weightedRandomDraw el (winners pt) st))) el)
        (snd (weightedRandomDraw el (winners pt) st))
        (fst (recordWinners pt (fst (weightedRandomDraw el (winners pt) st)) (res, el)))),
      fst (weightedRandomDraw el (winners pt) st) #
      snd (drawTiers pts
        (filter (\<lambda>p. address p \<notin> address ` set (fst (weightedRandomDraw el (winners pt) st))) el)
        (snd (weightedRandomDraw el (winners pt) st))
        (fst (recordWinners pt (fst (weightedRandomDraw el (winners pt) st)) (res, el)))))"
proof -
  obtain ws st' where w: "weightedRandomDraw el (winners pt) st = (ws, st')"
    by (cases "weightedRandomDraw el (winners pt) st")
  obtain res' el' where r: "recordWinners pt ws (res, el) = (res', el')"
    by (cases "recordWinners pt ws (res, el)")
  have el': "el' = filter (\<lambda>p. address p \<notin> address ` set ws) el"
    using recordWinners_pool [of pt ws res el] r by simp
  show ?thesis
    by (simp add: w r el' [symmetric] split_beta)
qed

lemma drawTiers_induct [case_names Nil Cons]:
  assumes "\<And>el st res. P [] el st res"
    and "\<And>pt pts el st res ws el' st' res'.
          ws = fst (weightedRandomDraw el (winners pt) st) \<Longrightarrow>
          st' = snd (weightedRandomDraw el (winners pt) st) \<Longrightarrow>
          el' = filter (\<lambda>p. address p \<notin> address ` set ws) el \<Longrightarrow>
          res' = fst (recordWinners pt ws (res, el)) \<Longrightarrow>
          drawTiers (pt # pts) el st res
            = (fst (drawTiers pts el' st' res'), ws # snd (drawTiers pts el' st' res')) \<Longrightarrow>
          P pts el' st' res' \<Longrightarrow> P (pt # pts) el st res"
  shows "P pts el st res"
proof -
  have "\<forall>el st res. P pts el st res"
  proof (induction pts)
    case Nil
    show ?case
      by (simp add: assms(1))
  next
    case (Cons pt pts)
    show ?case
    proof (intro allI)
      fix el st res
      show "P (pt # pts) el st res"
        by (rule assms(2) [OF refl refl refl refl drawTiers_Cons]) (simp add: Cons.IH)
    qed
  qed
  then show ?thesis
    by blast
qed


lemma drawTiers_subset:
  "\<forall>ws\<in>set (snd (drawTiers pts el st res)). set ws \<subseteq> set el"
proof (induction pts el st res rule: drawTiers_induct)
  case (Nil el st res)
  show ?case by simp
next
  case (Cons pt pts el st res ws el' st' res')
  have "set ws \<subseteq> set el"
    unfolding Cons.hyps(1) by (rule weightedRandomDraw_subset)
  moreover have "set el' \<subseteq> set el"
    unfolding Cons.hyps(3) by auto
  ultimately show ?case
    unfolding Cons.hyps(5) using Cons.IH by auto
qed

lemma drawTiers_distinct:
  "distinct (map address el) \<Longrightarrow>
   distinct (map address (concat (snd (drawTiers pts el st res))))"
proof (induction pts el st res rule: drawTiers_induct)
  case (Nil el st res)
  show ?case by simp
next
  case (Cons pt pts el st res ws el' st' res')
  have dws: "distinct (map address ws)"
    unfolding Cons.hyps(1) using Cons.prems by (rule weightedRandomDraw_distinct)
  have del': "distinct (map address el')"
    unfolding Cons.hyps(3) using Cons.prems by (rule distinct_map_filter)
  have rest: "distinct (map address (concat (snd (drawTiers pts el' st' res'))))"
    using del' by (rule Cons.IH)
  have "address ` set ws \<inter> address ` set el' = {}"
    unfolding Cons.hyps(3) by (auto simp: image_iff)
  moreover have "set (concat (snd (drawTiers pts el' st' res'))) \<subseteq> set el'"
    using drawTiers_subset [of pts el' st' res'] by auto
  ultimately have "address ` set ws \<inter> address ` set (concat (snd (drawTiers pts el' st' res'))) = {}"
    by blast
  with dws rest show ?case
    unfolding Cons.hyps(5) by simp
qed

lemma drawTiers_keys:
  "distinct (map address el) \<Longrightarrow> address ` set el \<inter> fst ` set res = {} \<Longrightarrow>
   map fst (fst (drawTiers pts el st res))
   = map fst res @ map address (concat (snd (drawTiers pts el st res)))"
proof (induction pts el st res rule: drawTiers_induct)
  case (Nil el st res)
  show ?case by simp
next
  case (Cons pt pts el st res ws el' st' res')
  have sub: "set ws \<subseteq> set el"
    unfolding Cons.hyps(1) by (rule weightedRandomDraw_subset)
  have dws: "distinct (map address ws)"
    unfolding Cons.hyps(1) using Cons.prems(1) by (rule weightedRandomDraw_distinct)
  have "address ` set ws \<inter> fst ` set res = {}"
    using sub Cons.prems(2) by blast
  with dws have keys: "map fst res' = map fst res @ map address ws"
    unfolding Cons.hyps(4) by (rule recordWinners_keys)
  have del': "distinct (map address el')"
    unfolding Cons.hyps(3) using Cons.prems(1) by (rule distinct_map_filter)
  have "fst ` set res' = fst ` set res \<union> address ` set ws"
    using arg_cong [OF keys, of set] by simp
  moreover have "address ` set el' \<inter> address ` set ws = {}"
    unfolding Cons.hyps(3) by (auto simp: image_iff)
  moreover have "address ` set el' \<subseteq> address ` set el"
    unfolding Cons.hyps(3) by auto
  ultimately have "address ` set el' \<inter> fst ` set res' = {}"
    using Cons.prems(2) by blast
  with del' have "map fst (fst (drawTiers pts el' st' res'))
     = map fst res' @ map address (concat (snd (drawTiers pts el' st' res')))"
    by (rule Cons.IH)
  then show ?case
    unfolding Cons.hyps(5) by (simp add: keys)
qed

lemma drawTiers_entries:
  "set (fst (drawTiers pts el st res))
   \<subseteq> set res \<union> {(k, a). \<exists>pt\<in>set pts. a = \<lparr>tier = name pt, amount = initPerWinner pt\<rparr>}"
proof (induction pts el st res rule: drawTiers_induct)
  case (Nil el st res)
  show ?case by simp
next
  case (Cons pt pts el st res ws el' st' res')
  have "set res' \<subseteq> set res \<union> {(k, a). a = \<lparr>tier = name pt, amount = initPerWinner pt\<rparr>}"
    unfolding Cons.hyps(4) by (rule recordWinners_entries)
  with Cons.IH show ?case
    unfolding Cons.hyps(5) by auto
qed



subsection \<open>The worked example, step by step\<close>

lemma example_seed: "createSeededRandom (js ''test'') = 3556498"
  by (simp add: createSeededRandom_def js_def toInt32_def shiftLeft_def charCode_def)


lemma example_random:
  "random 3556498 = (4147093230, 1835122311)"
  "random 1835122311 = (3867227031, 3666688124)"
  "random 3666688124 = (3889448109, 5498253937)"
  by (simp_all add: random_def imul_def Let_def roundDouble_small)


lemma example_tickets:
  "randomTicketOf 4147093230 450 = 434"
  "randomTicketOf 3867227031 400 = 360"
  "randomTicketOf 3889448109 300 = 271"
  by (simp_all add: randomTicketOf_small)


lemma example_steps:
  "drawLoop (Suc n) [playerA, playerB, playerD] ws 3556498
   = drawLoop n [playerA, playerB] (ws @ [playerD]) 1835122311"
  "drawLoop (Suc n) [playerA, playerB] ws 1835122311
   = drawLoop n [playerA] (ws @ [playerB]) 3666688124"
  "drawLoop (Suc n) [playerA] ws 3666688124
   = drawLoop n [] (ws @ [playerA]) 5498253937"
  by (simp_all add: example_random example_tickets splice_def
        playerA_def playerB_def playerD_def)


lemma example_eligible:
  "filter (\<lambda>p. tickets p > 0) examplePlayers = [playerA, playerB, playerD]"
  by (simp add: examplePlayers_def playerA_def playerB_def playerC_def playerD_def)

lemma example_addresses:
  "address playerA = ''A''" "address playerB = ''B''" "address playerC = ''C''"
  "address playerD = ''D''"
  by (simp_all add: playerA_def playerB_def playerC_def playerD_def)

lemma example_draws:
  "weightedRandomDraw [playerA, playerB, playerD] (Suc 0) 3556498 = ([playerD], 1835122311)"
  "weightedRandomDraw [playerA, playerB] (Suc (Suc (Suc n))) 1835122311
   = ([playerB, playerA], 5498253937)"
  "weightedRandomDraw [playerA, playerB, playerD] (Suc (Suc (Suc (Suc n)))) 3556498
   = ([playerD, playerB, playerA], 5498253937)"
  "weightedRandomDraw [] m st = ([], st)"
  by (simp_all add: weightedRandomDraw_def example_steps drawLoop_stop del: drawLoop.simps(2))


lemma example_conductTiers:
  "conductTiers exampleTiers examplePlayers (js ''test'') =
     ([(''D'', \<lparr>tier = ''Gold'', amount = 10\<rparr>),
       (''B'', \<lparr>tier = ''Silver'', amount = 5\<rparr>),
       (''A'', \<lparr>tier = ''Silver'', amount = 5\<rparr>)],
      [[playerD], [playerB, playerA]])"
proof -
  have five: "(5::nat) = Suc (Suc (Suc (Suc (Suc 0))))"
    by simp
  show ?thesis
    unfolding conductTiers_def example_seed example_eligible exampleTiers_def
    by (simp add: example_draws(1) example_addresses)
      (simp add: five example_draws example_addresses)
qed

lemma example_conductDraw:
  "conductTiers PRIZE_TIERS examplePlayers (js ''test'') =
     ([(''D'', \<lparr>tier = ''Grand Prize'', amount = 2500\<rparr>),
       (''B'', \<lparr>tier = ''Grand Prize'', amount = 2500\<rparr>),
       (''A'', \<lparr>tier = ''Grand Prize'', amount = 2500\<rparr>)],
      [[playerD, playerB, playerA], [], []])"
proof -
  have five: "(5::nat) = Suc (Suc (Suc (Suc (Suc 0))))"
    by simp
  show ?thesis
    unfolding conductTiers_def example_seed example_eligible PRIZE_TIERS_def
    by (simp add: five example_draws example_addresses)
qed


lemma example_steps_unfiltered:
  "drawLoop (Suc n) [playerA, playerB, playerC, playerD] ws 3556498
   = drawLoop n [playerA, playerB, playerC] (ws @ [playerD]) 1835122311"
  "drawLoop (Suc n) [playerA, playerB, playerC] ws 1835122311
   = drawLoop n [playerA, playerC] (ws @ [playerB]) 3666688124"
  "drawLoop (Suc n) [playerA, playerC] ws 3666688124
   = drawLoop n [playerC] (ws @ [playerA]) 5498253937"
  "drawLoop n [playerC] ws st = (ws, st)"
     apply (simp_all add: example_random example_tickets splice_def
        playerA_def playerB_def playerC_def playerD_def)
  apply (rule drawLoop_stop)
  apply simp
  done

lemma example_draw_unfiltered:
  "weightedRandomDraw examplePlayers (Suc (Suc (Suc (Suc 0)))) 3556498
   = ([playerD, playerB, playerA], 5498253937)"
  by (simp add: weightedRandomDraw_def examplePlayers_def example_steps_unfiltered
      del: drawLoop.simps(2))

lemma example_distinct: "distinct (map address examplePlayers)"
  by (simp add: examplePlayers_def example_addresses)

section \<open>The claims about the draw\<close>

text \<open>
  Claim C2 (no double win).  For a population with pairwise distinct identifiers, any
  tier list and any seed, the identifiers of the winners drawn over all tiers, in draw
  order, are pairwise distinct: nobody is selected twice, in the same tier or in a later
  one.  The result map has exactly these identifiers as its keys, in that order.
\<close>

theorem C2_no_double_win:
  assumes "distinct (map address players)"
  shows "distinct (map address (concat (tierWinners tiers players nistRandomness)))
    \<and> map fst (fst (conductTiers tiers players nistRandomness))
        = map address (concat (tierWinners tiers players nistRandomness))"
proof -
  let ?el = "filter (\<lambda>p. tickets p > 0) players"
  have d: "distinct (map address ?el)"
    using assms by (rule distinct_map_filter)
  have "distinct (map address (concat (snd (drawTiers tiers ?el
          (createSeededRandom nistRandomness) []))))"
    using d by (rule drawTiers_distinct)
  moreover have "map fst (fst (drawTiers tiers ?el (createSeededRandom nistRandomness) []))
      = map address (concat (snd (drawTiers tiers ?el (createSeededRandom nistRandomness) [])))"
    using drawTiers_keys [OF d, of "[]" tiers "createSeededRandom nistRandomness"] by simp
  ultimately show ?thesis
    by (simp add: tierWinners_def conductTiers_def)
qed

theorem C2_no_double_win_witness:
  "distinct (map address examplePlayers)
   \<and> map address (concat (tierWinners exampleTiers examplePlayers (js ''test'')))
       = [''D'', ''B'', ''A'']
   \<and> distinct (map address (concat (tierWinners exampleTiers examplePlayers (js ''test''))))
   \<and> map fst (fst (conductTiers exampleTiers examplePlayers (js ''test'')))
       = map address (concat (tierWinners exampleTiers examplePlayers (js ''test'')))"
  using C2_no_double_win [OF example_distinct, of exampleTiers "js ''test''"]
  by (simp add: example_distinct tierWinners_def example_conductTiers example_addresses)



text \<open>
  Claim C4 (zero-weight exclusion).  For every pool of non-negative weights, every
  count and every state of the generator, no participant of weight 0 is among the
  winners the sampler returns; and for every population, tier list and seed no
  participant of weight 0 is among the winners of any tier of the full draw.  The
  weights of a pool are non-negative by the specification's data model; the draw itself
  hands the sampler positive weights only, whatever the population.
\<close>

theorem C4_zero_weight_excluded:
  "((\<forall>p\<in>set pool. 0 \<le> tickets p) \<longrightarrow>
      (\<forall>w\<in>set (fst (weightedRandomDraw pool cnt st)). tickets w \<noteq> 0))
   \<and> (\<forall>ws\<in>set (tierWinners tiers players nistRandomness). \<forall>w\<in>set ws. tickets w \<noteq> 0)"
proof (intro conjI impI ballI)
  fix w
  assume "\<forall>p\<in>set pool. 0 \<le> tickets p" and "w \<in> set (fst (weightedRandomDraw pool cnt st))"
  with weightedRandomDraw_positive [of pool cnt st] show "tickets w \<noteq> 0"
    by auto
next
  fix ws w
  assume ws: "ws \<in> set (tierWinners tiers players nistRandomness)" and w: "w \<in> set ws"
  from ws have "set ws \<subseteq> set (filter (\<lambda>p. tickets p > 0) players)"
    using drawTiers_subset unfolding tierWinners_def conductTiers_def by blast
  with w show "tickets w \<noteq> 0"
    by auto
qed

theorem C4_zero_weight_excluded_witness:
  "list_all (\<lambda>p. 0 \<le> tickets p) examplePlayers
   \<and> tickets playerC = 0 \<and> playerC \<in> set examplePlayers
   \<and> fst (weightedRandomDraw examplePlayers 4 3556498) = [playerD, playerB, playerA]
   \<and> list_all (\<lambda>w. tickets w \<noteq> 0) (fst (weightedRandomDraw examplePlayers 4 3556498))
   \<and> list_all (list_all (\<lambda>w. tickets w \<noteq> 0)) (tierWinners exampleTiers examplePlayers (js ''test''))"
proof -
  have four: "(4::nat) = Suc (Suc (Suc (Suc 0)))"
    by simp
  have nonneg: "\<forall>p\<in>set examplePlayers. 0 \<le> tickets p"
    by (simp add: examplePlayers_def playerA_def playerB_def playerC_def playerD_def)
  from C4_zero_weight_excluded [of examplePlayers 4 3556498 exampleTiers examplePlayers "js ''test''"]
    nonneg
  have "\<forall>w\<in>set (fst (weightedRandomDraw examplePlayers 4 3556498)). tickets w \<noteq> 0"
    and "\<forall>ws\<in>set (tierWinners exampleTiers examplePlayers (js ''test'')). \<forall>w\<in>set ws. tickets w \<noteq> 0"
    by blast+
  then have "list_all (\<lambda>w. tickets w \<noteq> 0) (fst (weightedRandomDraw examplePlayers 4 3556498))"
    and "list_all (list_all (\<lambda>w. tickets w \<noteq> 0)) (tierWinners exampleTiers examplePlayers (js ''test''))"
    by (simp_all add: list_all_iff)
  moreover have "list_all (\<lambda>p. 0 \<le> tickets p) examplePlayers"
    using nonneg by (simp add: list_all_iff)
  moreover have "tickets playerC = 0" "playerC \<in> set examplePlayers"
    by (simp_all add: playerC_def examplePlayers_def)
  moreover have "fst (weightedRandomDraw examplePlayers 4 3556498) = [playerD, playerB, playerA]"
    by (simp add: four example_draw_unfiltered)
  ultimately show ?thesis
    by simp
qed





subsection \<open>The stored state of the generator\<close>

lemma random_stored: "snd (random s) = roundDouble (s + 0x6D2B79F5)"
  by (simp add: random_def Let_def)

lemma random_state: "\<bar>s + 0x6D2B79F5\<bar> < 2 ^ 53 \<Longrightarrow> snd (random s) = s + 0x6D2B79F5"
  by (simp add: random_stored roundDouble_small)

lemma random_specNext:
  assumes "\<bar>s + 0x6D2B79F5\<bar> < 2 ^ 53"
  shows "fst (random s) = fst (specNext (word_of_int s))"
    and "word_of_int (snd (random s)) = snd (specNext (word_of_int s))"
  using assms by (simp_all add: random_def specNext_def imul_def Let_def roundDouble_small)

lemma stateAfter_linear:
  "- (2 ^ 53) < h \<Longrightarrow> h + int n * 0x6D2B79F5 < 2 ^ 53 \<Longrightarrow>
   stateAfter n h = h + int n * 0x6D2B79F5"
proof (induction n arbitrary: h)
  case 0
  show ?case by simp
next
  case (Suc n)
  from Suc.prems have small: "\<bar>h + 0x6D2B79F5\<bar> < 2 ^ 53"
    by simp
  have "stateAfter n (h + 0x6D2B79F5) = h + 0x6D2B79F5 + int n * 0x6D2B79F5"
    using Suc.prems by (intro Suc.IH) simp_all
  then show ?case
    by (simp add: random_state [OF small] algebra_simps)
qed

lemma outputs_specOutputs:
  "- (2 ^ 53) < h \<Longrightarrow> h + int n * 0x6D2B79F5 < 2 ^ 53 \<Longrightarrow>
   outputs n h = specOutputs n (word_of_int h)"
proof (induction n arbitrary: h)
  case 0
  show ?case by simp
next
  case (Suc n)
  from Suc.prems have small: "\<bar>h + 0x6D2B79F5\<bar> < 2 ^ 53"
    by simp
  have "outputs n (h + 0x6D2B79F5) = specOutputs n (word_of_int (h + 0x6D2B79F5))"
    using Suc.prems by (intro Suc.IH) simp_all
  then show ?case
    using random_specNext [OF small] by (simp add: random_state [OF small])
qed

lemma createSeededRandom_range:
  "- (2 ^ 31) \<le> createSeededRandom seed \<and> createSeededRandom seed < 2 ^ 31"
  unfolding createSeededRandom_def by (rule hashLoop_range) simp

text \<open>
  Claim C5, as the code has it.  Every call adds \<open>0x6D2B79F5\<close> to the stored state as
  a number, without reducing it modulo \<open>2^32\<close>.  As long as the sum stays below \<open>2^53\<close>
  in magnitude, where a double holds it exactly, the stored state after the call is
  that sum, so after \<open>n\<close> calls it is the seed plus \<open>n * 0x6D2B79F5\<close>; only the working
  value \<open>t\<close> is reduced to 32 bits, by the bitwise operators, so each call returns what
  the generator with its state kept modulo \<open>2^32\<close> returns, and the two state sequences
  agree modulo \<open>2^32\<close>.  The at most 75 calls of a draw, from any seed string, are
  within that bound.
\<close>

theorem C5_state_update:
  "(\<bar>hashValue + 0x6D2B79F5\<bar> < 2 ^ 53 \<longrightarrow>
      snd (random hashValue) = hashValue + 0x6D2B79F5
      \<and> fst (random hashValue) = fst (specNext (word_of_int hashValue))
      \<and> word_of_int (snd (random hashValue)) = snd (specNext (word_of_int hashValue)))
   \<and> (- (2 ^ 53) < hashValue \<and> hashValue + int n * 0x6D2B79F5 < 2 ^ 53 \<longrightarrow>
      stateAfter n hashValue = hashValue + int n * 0x6D2B79F5
      \<and> outputs n hashValue = specOutputs n (word_of_int hashValue))
   \<and> (k \<le> 75 \<longrightarrow>
      stateAfter k (createSeededRandom seed) = createSeededRandom seed + int k * 0x6D2B79F5
      \<and> outputs k (createSeededRandom seed)
          = specOutputs k (word_of_int (createSeededRandom seed)))"
proof (intro conjI impI)
  assume "\<bar>hashValue + 0x6D2B79F5\<bar> < 2 ^ 53"
  then show "snd (random hashValue) = hashValue + 0x6D2B79F5"
    and "fst (random hashValue) = fst (specNext (word_of_int hashValue))"
    and "word_of_int (snd (random hashValue)) = snd (specNext (word_of_int hashValue))"
    by (rule random_state random_specNext)+
next
  assume "- (2 ^ 53) < hashValue \<and> hashValue + int n * 0x6D2B79F5 < 2 ^ 53"
  then show "stateAfter n hashValue = hashValue + int n * 0x6D2B79F5"
    and "outputs n hashValue = specOutputs n (word_of_int hashValue)"
    by (simp_all add: stateAfter_linear outputs_specOutputs)
next
  assume "k \<le> 75"
  then have "int k * 0x6D2B79F5 \<le> 75 * 0x6D2B79F5"
    by simp
  with createSeededRandom_range [of seed] have
    "- (2 ^ 53) < createSeededRandom seed"
    "createSeededRandom seed + int k * 0x6D2B79F5 < 2 ^ 53"
    by simp_all
  then show "stateAfter k (createSeededRandom seed)
      = createSeededRandom seed + int k * 0x6D2B79F5"
    and "outputs k (createSeededRandom seed)
      = specOutputs k (word_of_int (createSeededRandom seed))"
    by (rule stateAfter_linear outputs_specOutputs)+
qed

lemma example_specOutputs:
  "specOutputs (Suc (Suc (Suc 0))) 3556498 = [4147093230, 3867227031, 3889448109]"
  by (simp add: specNext_def Let_def)

theorem C5_state_update_witness:
  "\<bar>3556498 + 0x6D2B79F5\<bar> < (2 ^ 53 :: int)
   \<and> snd (random 3556498) = 3556498 + 0x6D2B79F5
   \<and> - (2 ^ 53) < (3556498 :: int) \<and> 3556498 + int 3 * 0x6D2B79F5 < (2 ^ 53 :: int)
   \<and> stateAfter 3 3556498 = 5498253937
   \<and> outputs 3 3556498 = [4147093230, 3867227031, 3889448109]
   \<and> (3 :: nat) \<le> 75
   \<and> stateAfter 3 (createSeededRandom (js ''test'')) = 5498253937"
proof -
  have three: "(3::nat) = Suc (Suc (Suc 0))"
    by simp
  have spec: "specOutputs 3 3556498 = [4147093230, 3867227031, 3889448109]"
    unfolding three by (rule example_specOutputs)
  from C5_state_update [of 3556498 3 3 "js ''test''"] have
    "snd (random 3556498) = 3556498 + 0x6D2B79F5"
    "stateAfter 3 3556498 = 3556498 + int 3 * 0x6D2B79F5"
    "outputs 3 3556498 = specOutputs 3 (word_of_int 3556498)"
    "stateAfter 3 (createSeededRandom (js ''test''))
       = createSeededRandom (js ''test'') + int 3 * 0x6D2B79F5"
    by simp_all
  then show ?thesis
    by (simp add: spec example_seed)
qed

text \<open>
  Claim C5 as stated fails: with the seed \<^verbatim>\<open>"test"\<close> the stored state is \<open>3666688124\<close>
  after two calls, and the third call stores \<open>5498253937\<close>, which is neither
  \<open>(3666688124 + 0x6D2B79F5) mod 2^32\<close> nor below \<open>2^32\<close>.
\<close>

theorem C5_state_wrap_counterexample:
  "stateAfter 2 (createSeededRandom (js ''test'')) = 3666688124
   \<and> snd (random 3666688124) = 5498253937
   \<and> (3666688124 + 0x6D2B79F5) mod 2 ^ 32 = (1203286641 :: int)
   \<and> snd (random 3666688124) \<noteq> (3666688124 + 0x6D2B79F5) mod 2 ^ 32
   \<and> \<not> snd (random 3666688124) < 2 ^ 32"
  by (simp add: example_seed example_random numeral_2_eq_2)

text \<open>
  Beyond the bound the stored number is rounded.  From the seed \<^verbatim>\<open>"test"\<close> the state is
  \<open>9007197432963752\<close> after 4917758 calls; the next sum is odd and above \<open>2^53\<close>, the
  even neighbour is stored, and the call returns another value than the generator with
  its state kept modulo \<open>2^32\<close>.
\<close>

lemma beyond_2_53_example:
  "stateAfter 4917758 3556498 = 9007197432963752
   \<and> random 9007197432963752 = (3790117709, 9007199264529564)
   \<and> fst (specNext (word_of_int 9007197432963752)) = 1311169182"
proof -
  have "stateAfter 4917758 3556498 = 3556498 + int 4917758 * 0x6D2B79F5"
    by (rule stateAfter_linear) simp_all
  moreover have "exponent53 9007199264529565 = Suc 0"
    by (subst exponent53.simps, simp, subst exponent53.simps, simp)
  then have "roundDouble 9007199264529565 = 9007199264529564"
    by (simp add: roundDouble_def roundMagnitude_def Let_def)
  then have "random 9007197432963752 = (3790117709, 9007199264529564)"
    by (simp add: random_def imul_def Let_def)
  moreover have "fst (specNext (word_of_int 9007197432963752)) = 1311169182"
    by (simp add: specNext_def Let_def)
  ultimately show ?thesis
    by simp
qed

subsection \<open>Seeds that the specification calls malformed\<close>





section \<open>Properties of the output rows\<close>

lemma compareRows_le: "compareRows a b \<le> 0 \<longleftrightarrow> rowsOrdered a b"
  by (auto simp: compareRows_def rowsOrdered_def)

lemma rowsOrdered_total: "\<not> rowsOrdered a b \<Longrightarrow> rowsOrdered b a"
  by (auto simp: rowsOrdered_def)

lemma rowsOrdered_trans: "rowsOrdered a b \<Longrightarrow> rowsOrdered b c \<Longrightarrow> rowsOrdered a c"
  by (auto simp: rowsOrdered_def)

lemma mset_insertByCompare: "mset (insertByCompare cmp x ys) = add_mset x (mset ys)"
  by (induction ys) simp_all

lemma mset_sortByCompare: "mset (sortByCompare cmp xs) = mset xs"
  unfolding sortByCompare_def by (induction xs) (simp_all add: mset_insertByCompare)

lemma set_insertByCompare: "set (insertByCompare cmp x ys) = insert x (set ys)"
  using arg_cong [OF mset_insertByCompare [of cmp x ys], of set_mset] by simp

lemma sorted_insertByCompare:
  "sorted_wrt rowsOrdered ys \<Longrightarrow> sorted_wrt rowsOrdered (insertByCompare compareRows x ys)"
proof (induction ys)
  case Nil
  show ?case by simp
next
  case (Cons y ys)
  show ?case
  proof (cases "rowsOrdered x y")
    case True
    moreover have "rowsOrdered x z" if "z \<in> set ys" for z
      using True Cons.prems that by (auto intro: rowsOrdered_trans)
    ultimately show ?thesis
      using Cons.prems by (simp add: compareRows_le)
  next
    case False
    then have "rowsOrdered y x"
      by (rule rowsOrdered_total)
    moreover have "sorted_wrt rowsOrdered (insertByCompare compareRows x ys)"
      using Cons.prems by (intro Cons.IH) simp
    ultimately show ?thesis
      using False Cons.prems by (simp add: compareRows_le set_insertByCompare)
  qed
qed

lemma sorted_sortByCompare: "sorted_wrt rowsOrdered (sortByCompare compareRows xs)"
  unfolding sortByCompare_def by (induction xs) (simp_all add: sorted_insertByCompare)

lemma resultRow_member:
  "row_address (resultRow res p) = address p"
  "init_spent (resultRow res p) = initSpent p"
  "row_tickets (resultRow res p) = tickets p"
  by (simp_all add: resultRow_def Let_def)

lemma conductDraw_awards:
  assumes "map_of (conductDraw players nistRandomness) k = Some a"
  shows "tier a \<noteq> [] \<and> 0 < amount a"
proof -
  from assms have "(k, a) \<in> set (conductDraw players nistRandomness)"
    by (rule map_of_SomeD)
  then have "\<exists>pt\<in>set PRIZE_TIERS. a = \<lparr>tier = name pt, amount = initPerWinner pt\<rparr>"
    using drawTiers_entries [of PRIZE_TIERS "filter (\<lambda>p. tickets p > 0) players"
        "createSeededRandom nistRandomness" "[]"]
    by (auto simp: conductDraw_def conductTiers_def)
  then show ?thesis
    by (auto simp: PRIZE_TIERS_def)
qed

lemma winner_row_iff:
  "prize_tier (resultRow (conductDraw players nistRandomness) p) \<noteq> []
   \<longleftrightarrow> 0 < init_won (resultRow (conductDraw players nistRandomness) p)"
proof (cases "map_of (conductDraw players nistRandomness) (address p)")
  case None
  then show ?thesis
    by (simp add: resultRow_def Let_def)
next
  case (Some a)
  with conductDraw_awards [OF Some] show ?thesis
    by (simp add: resultRow_def Let_def)
qed

lemma generateOutput_set:
  "set (generateOutput players res) = resultRow res ` set players"
  using arg_cong [OF mset_sortByCompare [of compareRows "map (resultRow res) players"], of set_mset]
  by (simp add: generateOutput_def)

text \<open>
  Claim C9.  The output of \<open>generateOutput\<close> for the result of the draw has exactly one
  row per member of the population, each with the member's address, spend and tickets;
  the rows are in descending order of the amount won, rows with the same amount in
  descending order of tickets; and no row without a prize comes before a row with one.
\<close>

theorem C9_output_rows:
  "let res = conductDraw players nistRandomness; output = generateOutput players res in
     length output = length players
     \<and> mset output = mset (map (resultRow res) players)
     \<and> mset (map (\<lambda>r. (row_address r, init_spent r, row_tickets r)) output)
         = mset (map (\<lambda>p. (address p, initSpent p, tickets p)) players)
     \<and> (\<forall>i j. i < j \<and> j < length output \<longrightarrow>
           init_won (output ! j) < init_won (output ! i)
           \<or> (init_won (output ! i) = init_won (output ! j)
               \<and> row_tickets (output ! j) \<le> row_tickets (output ! i)))
     \<and> (\<forall>i j. i < j \<and> j < length output \<and> prize_tier (output ! j) \<noteq> [] \<longrightarrow>
           prize_tier (output ! i) \<noteq> [])"
proof -
  define res where "res = conductDraw players nistRandomness"
  define rows where "rows = generateOutput players res"
  have ms: "mset rows = mset (map (resultRow res) players)"
    by (simp add: rows_def generateOutput_def mset_sortByCompare)
  then have "size (mset rows) = size (mset (map (resultRow res) players))"
    by (simp only:)
  then have len: "length rows = length players"
    by simp
  have "mset (map (\<lambda>r. (row_address r, init_spent r, row_tickets r)) rows)
      = image_mset (\<lambda>r. (row_address r, init_spent r, row_tickets r))
          (mset (map (resultRow res) players))"
    by (simp add: ms)
  then have members: "mset (map (\<lambda>r. (row_address r, init_spent r, row_tickets r)) rows)
      = mset (map (\<lambda>p. (address p, initSpent p, tickets p)) players)"
    by (simp add: resultRow_member image_mset.compositionality comp_def)
  have "sorted_wrt rowsOrdered rows"
    by (simp add: rows_def generateOutput_def sorted_sortByCompare)
  then have ord: "rowsOrdered (rows ! i) (rows ! j)" if "i < j" "j < length rows" for i j
    using that by (simp add: sorted_wrt_iff_nth_less)
  have win: "prize_tier r \<noteq> [] \<longleftrightarrow> 0 < init_won r" if "r \<in> set rows" for r
    using that winner_row_iff [of players nistRandomness]
    by (auto simp: rows_def generateOutput_set res_def)
  have first: "prize_tier (rows ! i) \<noteq> []"
    if "i < j" "j < length rows" "prize_tier (rows ! j) \<noteq> []" for i j
  proof -
    have "0 < init_won (rows ! j)"
      using that win [of "rows ! j"] by simp
    moreover have "init_won (rows ! j) \<le> init_won (rows ! i)"
      using ord [OF that(1,2)] by (auto simp: rowsOrdered_def)
    ultimately have "0 < init_won (rows ! i)"
      by simp
    then show ?thesis
      using that win [of "rows ! i"] by simp
  qed
  show ?thesis
    unfolding Let_def res_def [symmetric] rows_def [symmetric]
    using len ms members ord first by (auto simp: rowsOrdered_def)
qed

lemma example_output:
  "generateOutput examplePlayers (conductDraw examplePlayers (js ''test'')) =
     [\<lparr>row_address = ''A'', init_spent = 30000, row_tickets = 300,
        prize_tier = ''Grand Prize'', init_won = 2500\<rparr>,
      \<lparr>row_address = ''B'', init_spent = 10000, row_tickets = 100,
        prize_tier = ''Grand Prize'', init_won = 2500\<rparr>,
      \<lparr>row_address = ''D'', init_spent = 5000, row_tickets = 50,
        prize_tier = ''Grand Prize'', init_won = 2500\<rparr>,
      \<lparr>row_address = ''C'', init_spent = 50, row_tickets = 0,
        prize_tier = [], init_won = 0\<rparr>]"
  unfolding conductDraw_def example_conductDraw fst_conv
  by (simp add: generateOutput_def sortByCompare_def resultRow_def Let_def compareRows_def
      examplePlayers_def playerA_def playerB_def playerC_def playerD_def)

theorem C9_output_rows_witness:
  "length (generateOutput examplePlayers (conductDraw examplePlayers (js ''test''))) = 4
   \<and> map row_address (generateOutput examplePlayers (conductDraw examplePlayers (js ''test'')))
       = [''A'', ''B'', ''D'', ''C'']
   \<and> map init_won (generateOutput examplePlayers (conductDraw examplePlayers (js ''test'')))
       = [2500, 2500, 2500, 0]
   \<and> map row_tickets (generateOutput examplePlayers (conductDraw examplePlayers (js ''test'')))
       = [300, 100, 50, 0]"
proof -
  from C9_output_rows [of examplePlayers "js ''test''"]
  have "length (generateOutput examplePlayers (conductDraw examplePlayers (js ''test'')))
      = length examplePlayers"
    by (simp only: Let_def)
  then have "length (generateOutput examplePlayers (conductDraw examplePlayers (js ''test''))) = 4"
    by (simp add: examplePlayers_def)
  then show ?thesis
    by (simp add: example_output)
qed

section \<open>Properties of the draw on the store\<close>

lemma newArray_simps [simp]:
  "fst (newArray elems h) = nextRef h"
  "objects (snd (newArray elems h)) = objects h"
  "nextRef (snd (newArray elems h)) = Suc (nextRef h)"
  "arrays (snd (newArray elems h)) r = (if r = nextRef h then elems else arrays h r)"
  by (simp_all add: newArray_def)

lemma push_simps [simp]:
  "objects (push arr x h) = objects h"
  "nextRef (push arr x h) = nextRef h"
  "arrays (push arr x h) r = (if r = arr then arrays h arr @ [x] else arrays h r)"
  by (simp_all add: push_def)

lemma spliceAt_simps [simp]:
  "objects (spliceAt arr i h) = objects h"
  "nextRef (spliceAt arr i h) = nextRef h"
  "arrays (spliceAt arr i h) r = (if r = arr then splice i (arrays h arr) else arrays h r)"
  by (simp_all add: spliceAt_def)

lemma unchanged_refl: "unchanged h h"
  by (simp add: unchanged_def)

lemma unchanged_trans: "unchanged h h' \<Longrightarrow> unchanged h' h'' \<Longrightarrow> unchanged h h''"
  by (auto simp: unchanged_def)

lemma unchanged_newArray: "unchanged h (snd (newArray elems h))"
  by (simp add: unchanged_def)

lemma map_splice: "map f (splice i xs) = splice i (map f xs)"
  by (simp add: splice_def take_map drop_map)

lemma drawLoop_Suc:
  "drawLoop (Suc n) remaining ws st =
     (if remaining = [] \<or> sumTickets remaining = 0 then (ws, st)
      else case findWinner (randomTicketOf (fst (random st)) (sumTickets remaining)) remaining 0 0 of
             None \<Rightarrow> drawLoop n remaining ws (snd (random st))
           | Some j \<Rightarrow> drawLoop n (splice j remaining) (ws @ [remaining ! j]) (snd (random st)))"
  by (simp add: Let_def split_beta)

lemma drawLoopH_Suc:
  "drawLoopH (Suc n) remaining winnersArr st h =
     (if arrays h remaining = [] \<or> sumTickets (deref h remaining) = 0 then (st, h)
      else case findWinner (randomTicketOf (fst (random st)) (sumTickets (deref h remaining)))
                  (deref h remaining) 0 0 of
             None \<Rightarrow> drawLoopH n remaining winnersArr (snd (random st)) h
           | Some j \<Rightarrow> drawLoopH n remaining winnersArr (snd (random st))
                        (spliceAt remaining j (push winnersArr (arrays h remaining ! j) h)))"
  by (simp add: Let_def split_beta)

lemma drawLoopH_refines:
  assumes "remaining \<noteq> winnersArr"
  shows "objects (snd (drawLoopH n remaining winnersArr st h)) = objects h
    \<and> nextRef (snd (drawLoopH n remaining winnersArr st h)) = nextRef h
    \<and> (\<forall>r. r \<noteq> remaining \<and> r \<noteq> winnersArr \<longrightarrow>
          arrays (snd (drawLoopH n remaining winnersArr st h)) r = arrays h r)
    \<and> deref (snd (drawLoopH n remaining winnersArr st h)) winnersArr
        = fst (drawLoop n (deref h remaining) (deref h winnersArr) st)
    \<and> fst (drawLoopH n remaining winnersArr st h)
        = snd (drawLoop n (deref h remaining) (deref h winnersArr) st)"
    (is "?P n st h")
proof -
  have "\<forall>st h. ?P n st h"
  proof (induction n)
    case 0
    show ?case by simp
  next
    case (Suc n)
    show ?case
    proof (intro allI)
      fix st h
      let ?rem = "deref h remaining"
      let ?t = "randomTicketOf (fst (random st)) (sumTickets ?rem)"
      have empty: "arrays h remaining = [] \<longleftrightarrow> ?rem = []"
        by (simp add: deref_def)
      show "?P (Suc n) st h"
      proof (cases "arrays h remaining = [] \<or> sumTickets ?rem = 0")
        case True
        then show ?thesis
          unfolding drawLoop_Suc drawLoopH_Suc using empty by auto
      next
        case False
        show ?thesis
        proof (cases "findWinner ?t ?rem 0 0")
          case None
          with False empty Suc.IH [rule_format, of "snd (random st)" h] show ?thesis
            unfolding drawLoop_Suc drawLoopH_Suc by simp
        next
          case (Some j)
          define h' where "h' = spliceAt remaining j (push winnersArr (arrays h remaining ! j) h)"
          from findWinner_bounds [OF Some] have j: "j < length (arrays h remaining)"
            by (simp add: deref_def)
          have rem': "deref h' remaining = splice j ?rem"
            using assms by (simp add: h'_def deref_def map_splice)
          have win': "deref h' winnersArr = deref h winnersArr @ [?rem ! j]"
            using assms j by (simp add: h'_def deref_def)
          have other: "objects h' = objects h" "nextRef h' = nextRef h"
            "\<And>r. r \<noteq> remaining \<and> r \<noteq> winnersArr \<Longrightarrow> arrays h' r = arrays h r"
            by (simp_all add: h'_def)
          have eqH: "drawLoopH (Suc n) remaining winnersArr st h
              = drawLoopH n remaining winnersArr (snd (random st)) h'"
            using False Some by (simp add: drawLoopH_Suc h'_def del: drawLoopH.simps)
          have eqP: "drawLoop (Suc n) ?rem (deref h winnersArr) st
              = drawLoop n (splice j ?rem) (deref h winnersArr @ [?rem ! j]) (snd (random st))"
            using False empty Some by (simp add: drawLoop_Suc del: drawLoop.simps)
          from Suc.IH [rule_format, of "snd (random st)" h'] have "?P n (snd (random st)) h'" .
          then show ?thesis
            unfolding eqH eqP by (simp add: rem' win' other)
        qed
      qed
    qed
  qed
  then show ?thesis
    by blast
qed


lemma weightedRandomDrawH_refines:
  assumes "players < nextRef h"
  shows "unchanged h (snd (snd (weightedRandomDrawH players cnt st h)))
    \<and> fst (weightedRandomDrawH players cnt st h)
        < nextRef (snd (snd (weightedRandomDrawH players cnt st h)))
    \<and> deref (snd (snd (weightedRandomDrawH players cnt st h)))
          (fst (weightedRandomDrawH players cnt st h))
        = fst (weightedRandomDraw (deref h players) cnt st)
    \<and> fst (snd (weightedRandomDrawH players cnt st h))
        = snd (weightedRandomDraw (deref h players) cnt st)"
proof -
  define win where "win = nextRef h"
  define h1 where "h1 = snd (newArray [] h)"
  define rem where "rem = nextRef h1"
  define h2 where "h2 = snd (newArray (arrays h1 players) h1)"
  define L where "L = drawLoopH cnt rem win st h2"
  have W: "weightedRandomDrawH players cnt st h = (win, fst L, snd L)"
    by (simp add: weightedRandomDrawH_def Let_def split_beta win_def h1_def rem_def h2_def L_def)
  have ne: "rem \<noteq> win"
    by (simp add: rem_def win_def h1_def)
  have p1: "arrays h1 players = arrays h players"
    using assms by (simp add: h1_def)
  have rem2: "deref h2 rem = deref h players"
    by (simp add: deref_def h2_def rem_def p1) (simp add: h1_def)
  have win2: "deref h2 win = []"
    by (simp add: deref_def h2_def win_def rem_def h1_def)
  note R = drawLoopH_refines [OF ne, of cnt st h2, folded L_def, unfolded rem2 win2]
  have obj: "objects (snd L) = objects h"
    using R by (simp add: h2_def h1_def)
  have nxt: "nextRef (snd L) = Suc (Suc (nextRef h))"
    using R by (simp add: h2_def h1_def)
  have arr: "arrays (snd L) r = arrays h r" if "r < nextRef h" for r
  proof -
    from that have "r \<noteq> rem \<and> r \<noteq> win"
      by (simp add: rem_def win_def h1_def)
    with R have "arrays (snd L) r = arrays h2 r"
      by blast
    also have "\<dots> = arrays h r"
      using that by (simp add: h2_def h1_def)
    finally show ?thesis .
  qed
  have "unchanged h (snd L)"
    using obj nxt arr by (simp add: unchanged_def)
  moreover have "win < nextRef (snd L)"
    by (simp add: nxt win_def)
  ultimately show ?thesis
    using R by (simp add: W weightedRandomDraw_def)
qed

lemma recordWinnersH_refines:
  "eligiblePlayers < nextRef h \<Longrightarrow>
   unchanged h (snd (snd (recordWinnersH pt ws (res, eligiblePlayers, h))))
   \<and> fst (snd (recordWinnersH pt ws (res, eligiblePlayers, h)))
       < nextRef (snd (snd (recordWinnersH pt ws (res, eligiblePlayers, h))))
   \<and> fst (recordWinnersH pt ws (res, eligiblePlayers, h))
       = fst (recordWinners pt (map (objects h) ws) (res, deref h eligiblePlayers))
   \<and> deref (snd (snd (recordWinnersH pt ws (res, eligiblePlayers, h))))
         (fst (snd (recordWinnersH pt ws (res, eligiblePlayers, h))))
       = snd (recordWinners pt (map (objects h) ws) (res, deref h eligiblePlayers))"
    (is "_ \<Longrightarrow> ?P ws res eligiblePlayers h")
proof -
  have "\<forall>res el h. el < nextRef h \<longrightarrow> ?P ws res el h"
  proof (induction ws)
    case Nil
    show ?case
      by (simp add: unchanged_refl)
  next
    case (Cons w ws)
    show ?case
    proof (intro allI impI)
      fix res :: results and el :: nat and h :: heap
      assume el: "el < nextRef h"
      define res1 where
        "res1 = AList.update (address (objects h w)) \<lparr>tier = name pt, amount = initPerWinner pt\<rparr> res"
      define h1 where "h1 = snd (newArray (filter (\<lambda>p. address (objects h p) \<noteq> address (objects h w))
                                   (arrays h el)) h)"
      define el1 where "el1 = nextRef h"
      have step: "recordWinnersH pt (w # ws) (res, el, h) = recordWinnersH pt ws (res1, el1, h1)"
        by (simp add: split_beta res1_def h1_def el1_def)
      have el1: "el1 < nextRef h1"
        by (simp add: el1_def h1_def)
      have obj1: "objects h1 = objects h"
        by (simp add: h1_def)
      have d1: "deref h1 el1 = filter (\<lambda>p. address p \<noteq> address (objects h w)) (deref h el)"
        by (simp add: deref_def h1_def el1_def filter_map comp_def)
      have u1: "unchanged h h1"
        unfolding h1_def by (rule unchanged_newArray)
      from Cons.IH el1 have "?P ws res1 el1 h1"
        by blast
      then show "?P (w # ws) res el h"
        unfolding step using u1 by (auto simp: obj1 d1 res1_def intro: unchanged_trans)
    qed
  qed
  then show "eligiblePlayers < nextRef h \<Longrightarrow> ?P ws res eligiblePlayers h"
    by blast
qed

lemma unchanged_deref:
  "unchanged h h' \<Longrightarrow> arr < nextRef h \<Longrightarrow> deref h' arr = deref h arr"
  by (simp add: unchanged_def deref_def)

lemma drawTiersH_refines:
  "eligiblePlayers < nextRef h \<Longrightarrow>
   unchanged h (snd (drawTiersH pts eligiblePlayers st res h))
   \<and> fst (drawTiersH pts eligiblePlayers st res h)
       = fst (drawTiers pts (deref h eligiblePlayers) st res)"
    (is "_ \<Longrightarrow> ?P pts eligiblePlayers st res h")
proof -
  have "\<forall>el st res h. el < nextRef h \<longrightarrow> ?P pts el st res h"
  proof (induction pts)
    case Nil
    show ?case
      by (simp add: unchanged_refl)
  next
    case (Cons pt pts)
    show ?case
    proof (intro allI impI)
      fix el :: nat and st :: int and res :: results and h :: heap
      assume el: "el < nextRef h"
      define W where "W = weightedRandomDrawH el (winners pt) st h"
      define h1 where "h1 = snd (snd W)"
      define R where "R = recordWinnersH pt (arrays h1 (fst W)) (res, el, h1)"
      define h2 where "h2 = snd (snd R)"
      define ws where "ws = fst (weightedRandomDraw (deref h el) (winners pt) st)"
      have step: "drawTiersH (pt # pts) el st res h
          = drawTiersH pts (fst (snd R)) (fst (snd W)) (fst R) h2"
        by (simp add: split_beta W_def h1_def R_def h2_def)
      from weightedRandomDrawH_refines [OF el, of "winners pt" st] have
        u1: "unchanged h h1" and
        w: "deref h1 (fst W) = ws" and
        st': "fst (snd W) = snd (weightedRandomDraw (deref h el) (winners pt) st)"
        by (simp_all add: W_def h1_def ws_def)
      have el1: "el < nextRef h1"
        using u1 el by (simp add: unchanged_def)
      have d1: "deref h1 el = deref h el"
        using u1 el by (rule unchanged_deref)
      have ws1: "map (objects h1) (arrays h1 (fst W)) = ws"
        using w by (simp add: deref_def)
      from recordWinnersH_refines [OF el1, of pt "arrays h1 (fst W)" res] have
        u2: "unchanged h1 h2" and
        el2: "fst (snd R) < nextRef h2" and
        res2: "fst R = fst (recordWinners pt ws (res, deref h el))" and
        d2: "deref h2 (fst (snd R)) = snd (recordWinners pt ws (res, deref h el))"
        by (simp_all add: R_def h2_def ws1 d1)
      from Cons.IH el2 have "?P pts (fst (snd R)) (fst (snd W)) (fst R) h2"
        by blast
      then show "?P (pt # pts) el st res h"
        unfolding step drawTiers_Cons
        using unchanged_trans [OF u1 u2]
        by (auto simp: d2 res2 st' recordWinners_pool ws_def intro: unchanged_trans)
    qed
  qed
  then show "eligiblePlayers < nextRef h \<Longrightarrow> ?P pts eligiblePlayers st res h"
    by blast
qed

lemma conductDrawH_refines:
  assumes "players < nextRef h"
  shows "unchanged h (snd (conductDrawH players nistRandomness h))
    \<and> fst (conductDrawH players nistRandomness h) = conductDraw (deref h players) nistRandomness"
proof -
  define h1 where
    "h1 = snd (newArray (filter (\<lambda>p. tickets (objects h p) > 0) (arrays h players)) h)"
  define el where "el = nextRef h"
  have C: "conductDrawH players nistRandomness h
      = drawTiersH PRIZE_TIERS el (createSeededRandom nistRandomness) [] h1"
    by (simp add: conductDrawH_def Let_def split_beta h1_def el_def)
  have el: "el < nextRef h1"
    by (simp add: el_def h1_def)
  have d: "deref h1 el = filter (\<lambda>p. tickets p > 0) (deref h players)"
    by (simp add: deref_def h1_def el_def filter_map comp_def)
  have u: "unchanged h h1"
    unfolding h1_def by (rule unchanged_newArray)
  from drawTiersH_refines [OF el, of PRIZE_TIERS "createSeededRandom nistRandomness" "[]"]
  show ?thesis
    unfolding C using u
    by (auto simp: d conductDraw_def conductTiers_def intro: unchanged_trans)
qed

lemma conductDrawH_again:
  assumes "players < nextRef h"
  shows "fst (conductDrawH players nistRandomness (snd (conductDrawH players nistRandomness h)))
         = fst (conductDrawH players nistRandomness h)"
proof -
  define h' where "h' = snd (conductDrawH players nistRandomness h)"
  from conductDrawH_refines [OF assms, of nistRandomness] have
    u: "unchanged h h'" and
    r: "fst (conductDrawH players nistRandomness h) = conductDraw (deref h players) nistRandomness"
    by (simp_all add: h'_def)
  from u assms have alloc: "players < nextRef h'"
    by (simp add: unchanged_def)
  have "fst (conductDrawH players nistRandomness h')
      = conductDraw (deref h' players) nistRandomness"
    using conductDrawH_refines [OF alloc, of nistRandomness] by simp
  also have "deref h' players = deref h players"
    using u assms by (rule unchanged_deref)
  finally show ?thesis
    by (simp add: r h'_def)
qed

text \<open>
  Claim C1 (determinism).  For a fixed population list (order and weights included), a
  fixed tier list and a fixed seed string, two runs of the draw produce identical winner
  mappings: equal inputs give equal results, for any tier list and for the configured
  one, the order of the entries of the map included.  Each run builds its generator
  from the seed alone and leaves the population as it found it, so a second run in the
  store the first run left behind returns the same mapping again.
\<close>

theorem C1_determinism:
  "(players = players' \<and> tiers = tiers' \<and> nistRandomness = nistRandomness' \<longrightarrow>
      conductTiers tiers players nistRandomness = conductTiers tiers' players' nistRandomness'
      \<and> conductDraw players nistRandomness = conductDraw players' nistRandomness')
   \<and> (arr < nextRef h \<longrightarrow>
        fst (conductDrawH arr nistRandomness (snd (conductDrawH arr nistRandomness h)))
        = fst (conductDrawH arr nistRandomness h))"
  by (simp add: conductDrawH_again)

theorem C1_determinism_witness:
  "conductDraw examplePlayers (js ''test'') = conductDraw examplePlayers (js ''test'')
   \<and> (0::nat) < nextRef exampleHeap
   \<and> fst (conductDrawH 0 (js ''test'') (snd (conductDrawH 0 (js ''test'') exampleHeap)))
      = fst (conductDrawH 0 (js ''test'') exampleHeap)"
proof -
  have alloc: "(0::nat) < nextRef exampleHeap"
    by (simp add: exampleHeap_def)
  from C1_determinism [of examplePlayers examplePlayers PRIZE_TIERS PRIZE_TIERS
      "js ''test''" "js ''test''" 0 exampleHeap] alloc
  show ?thesis
    by blast
qed

lemma example_deref: "deref exampleHeap 0 = examplePlayers"
  by (simp add: deref_def exampleHeap_def examplePlayers_def)

text \<open>
  Claim C10 (the caller's population is left alone).  For every store and every array
  \<open>players\<close> allocated in it, the sampler and the full draw end in a store where the
  array \<open>players\<close>, every other array that existed before the call, and every
  participant record are what they were before the call: the sampler mutates only the
  copy and the winners array it allocated, and the draw replaces its pool by newly
  allocated arrays.  Both return what the functions on values return for the contents
  of \<open>players\<close>.
\<close>

theorem C10_population_unchanged:
  assumes "players < nextRef h"
  shows "(let (winnersArr, st', h') = weightedRandomDrawH players cnt st h in
            arrays h' players = arrays h players \<and> objects h' = objects h
            \<and> (\<forall>r < nextRef h. arrays h' r = arrays h r)
            \<and> deref h' players = deref h players
            \<and> (deref h' winnersArr, st') = weightedRandomDraw (deref h players) cnt st)
       \<and> (let (res, h') = conductDrawH players nistRandomness h in
            arrays h' players = arrays h players \<and> objects h' = objects h
            \<and> (\<forall>r < nextRef h. arrays h' r = arrays h r)
            \<and> deref h' players = deref h players
            \<and> res = conductDraw (deref h players) nistRandomness)"
proof -
  from weightedRandomDrawH_refines [OF assms, of cnt st] have
    u: "unchanged h (snd (snd (weightedRandomDrawH players cnt st h)))" and
    r: "deref (snd (snd (weightedRandomDrawH players cnt st h)))
          (fst (weightedRandomDrawH players cnt st h))
        = fst (weightedRandomDraw (deref h players) cnt st)"
       "fst (snd (weightedRandomDrawH players cnt st h))
        = snd (weightedRandomDraw (deref h players) cnt st)"
    by simp_all
  from conductDrawH_refines [OF assms, of nistRandomness] have
    u': "unchanged h (snd (conductDrawH players nistRandomness h))" and
    r': "fst (conductDrawH players nistRandomness h) = conductDraw (deref h players) nistRandomness"
    by simp_all
  have frame: "arrays h' players = arrays h players \<and> objects h' = objects h
      \<and> (\<forall>r < nextRef h. arrays h' r = arrays h r) \<and> deref h' players = deref h players"
    if "unchanged h h'" for h'
    using that assms unchanged_deref [OF that assms] by (simp add: unchanged_def)
  show ?thesis
    unfolding Let_def split_beta
    using frame [OF u] frame [OF u'] r r' by (simp add: prod_eq_iff)
qed

theorem C10_population_unchanged_witness:
  "(0::nat) < nextRef exampleHeap
   \<and> deref exampleHeap 0 = examplePlayers
   \<and> arrays (snd (snd (weightedRandomDrawH 0 4 3556498 exampleHeap))) 0 = [0, 1, 2, 3]
   \<and> deref (snd (snd (weightedRandomDrawH 0 4 3556498 exampleHeap))) 0 = examplePlayers
   \<and> deref (snd (snd (weightedRandomDrawH 0 4 3556498 exampleHeap)))
        (fst (weightedRandomDrawH 0 4 3556498 exampleHeap)) = [playerD, playerB, playerA]
   \<and> arrays (snd (conductDrawH 0 (js ''test'') exampleHeap)) 0 = [0, 1, 2, 3]
   \<and> deref (snd (conductDrawH 0 (js ''test'') exampleHeap)) 0 = examplePlayers
   \<and> map fst (fst (conductDrawH 0 (js ''test'') exampleHeap)) = [''D'', ''B'', ''A'']"
proof -
  have alloc: "(0::nat) < nextRef exampleHeap"
    by (simp add: exampleHeap_def)
  have four: "(4::nat) = Suc (Suc (Suc (Suc 0)))"
    by simp
  have content: "arrays exampleHeap 0 = [0, 1, 2, 3]"
    by (simp add: exampleHeap_def)
  have pure: "weightedRandomDraw examplePlayers 4 3556498 = ([playerD, playerB, playerA], 5498253937)"
    by (simp only: four example_draw_unfiltered)
  have draw: "conductDraw examplePlayers (js ''test'') =
     [(''D'', \<lparr>tier = ''Grand Prize'', amount = 2500\<rparr>),
      (''B'', \<lparr>tier = ''Grand Prize'', amount = 2500\<rparr>),
      (''A'', \<lparr>tier = ''Grand Prize'', amount = 2500\<rparr>)]"
    by (simp add: conductDraw_def example_conductDraw)
  from C10_population_unchanged [OF alloc, of 4 3556498 "js ''test''"]
  show ?thesis
    unfolding Let_def split_beta example_deref content pure draw
    by (simp add: alloc prod_eq_iff)
qed

section \<open>Why the claims keep to the data model\<close>

text \<open>
  The draw filters its population to positive weights before it samples, so the sampler
  never meets a negative weight there.  Called on its own with a negative total, it
  draws a negative ticket, and the scan then stops at a participant of weight 0.
\<close>

lemma negative_weight_example:
  "fst (weightedRandomDraw [playerZ, playerN] (Suc 0) 3556498) = [playerZ]"
proof -
  have "randomTicketOf 4147093230 (- 5) = - 5"
    by (simp add: randomTicketOf_small)
  then show ?thesis
    by (simp add: weightedRandomDraw_def example_random splice_def playerZ_def playerN_def)
qed

text \<open>
  With an address that occurs twice, removing a winner by address removes both records:
  the two tiers of the example award two prizes to three eligible records.
\<close>

lemma duplicate_address_example:
  "tierWinners exampleTiers [playerA, playerB, playerA2] (js ''test'') = [[playerA2], [playerB]]"
proof -
  have tickets: "randomTicketOf 4147093230 450 = 434" "randomTicketOf 3867227031 100 = 90"
    by (simp_all add: randomTicketOf_small)
  have steps:
    "\<And>n ws. drawLoop (Suc n) [playerA, playerB, playerA2] ws 3556498
       = drawLoop n [playerA, playerB] (ws @ [playerA2]) 1835122311"
    "\<And>n ws. drawLoop (Suc n) [playerB] ws 1835122311
       = drawLoop n [] (ws @ [playerB]) 3666688124"
    by (simp_all add: example_random tickets splice_def playerA_def playerB_def playerA2_def)
  have draws:
    "weightedRandomDraw [playerA, playerB, playerA2] (Suc 0) 3556498 = ([playerA2], 1835122311)"
    "weightedRandomDraw [playerB] (Suc (Suc (Suc (Suc (Suc 0))))) 1835122311
       = ([playerB], 3666688124)"
    by (simp_all add: weightedRandomDraw_def steps drawLoop_stop del: drawLoop.simps(2))
  have five: "(5::nat) = Suc (Suc (Suc (Suc (Suc 0))))"
    by simp
  have eligible: "filter (\<lambda>p. tickets p > 0) [playerA, playerB, playerA2]
      = [playerA, playerB, playerA2]"
    by (simp add: playerA_def playerB_def playerA2_def)
  have addresses: "address playerA2 = ''A''"
    by (simp add: playerA2_def)
  show ?thesis
    unfolding tierWinners_def conductTiers_def example_seed eligible exampleTiers_def
    by (simp add: draws(1) example_addresses addresses) (simp add: five draws(2))
qed

end
